theory Spec2Isabelle
  imports Complex_Main "HOL-Library.Word" "HOL-Library.Multiset"
begin

section \<open>The orchestrator of the MIP tree search: \<open>HighsMipSolver::run\<close>\<close>

text \<open>
  The development embeds \<open>HighsMipSolver::run\<close> of \<open>src/mip/HighsMipSolver.cpp\<close>.
  The classes it drives (\<open>HighsMipSolverData\<close>, \<open>HighsNodeQueue\<close>, \<open>HighsSearch\<close>,
  \<open>HighsLpRelaxation\<close>, \<open>HighsDomain\<close>, \<open>HighsSeparation\<close>) are declared in headers that
  are not part of the sources at hand. The data that \<open>run\<close> reads and writes itself is a
  record; the member functions whose bodies are unknown are parameters of the model
  (a record of functions on the whole solver state), and the few queue and search
  operations whose meaning the claims depend on are modelled from the written
  specification, each marked as such.

  Numbers: \<open>double\<close> is modelled by \<open>real\<close> (no NaN, no infinity), \<open>size_t\<close> by
  \<open>64 word\<close>, so that \<open>num_nodes - plungestart\<close> wraps as it does in C++.
\<close>

subsection \<open>Data\<close>

text \<open>
  Modelled from the spec: the entries of \<open>HighsNodeQueue\<close> (section 3, Node): a reference
  to the domain-change range that reconstructs the node's bounds, a proven lower bound,
  a branching-quality estimate and a depth.
\<close>

record OpenNode =
  domchg_ref :: nat
  node_lower_bound :: real
  node_estimate :: real
  node_depth :: nat

text \<open>
  Modelled from the spec: \<open>HighsLpRelaxation::Status\<close> (section 4.3). The source names
  \<open>Error\<close> and \<open>NotSet\<close>.
\<close>

datatype Status = Optimal | Infeasible | IterationLimitReached | Error | NotSet

text \<open>\<open>HighsBasis\<close> is opaque to the orchestrator; a list of status codes stands for it.\<close>

type_synonym HighsBasis = "nat list"

text \<open>What \<open>run\<close> prints with \<open>printf\<close>.\<close>

datatype Message = SolvedInRootNode | StartingTreeSearch | AddedGlobalBoundChanges nat

text \<open>
  The state that \<open>run\<close> touches directly: the members of \<open>mipdata_\<close> it reads and writes,
  the settings of the LP relaxation \<open>mipdata_->lp\<close>, the flags of the global domain
  \<open>mipdata_->domain\<close>, and the nodes held by the local \<open>HighsSearch search\<close>.
  Everything else a collaborator owns lives in the record's extension.

  Modelled from the spec: the accessors of the absent classes that read or write one
  attribute are fields here. \<open>lp.getNumLpIterations()\<close>, \<open>lp.getStatus()\<close>,
  \<open>lp.getStoredBasis()\<close> and \<open>lp.setStoredBasis\<close> (section 4.3) are
  \<open>lp_num_iterations\<close>, \<open>lp_status\<close> and \<open>lp_stored_basis\<close>, a null pointer being
  \<open>None\<close>; the limit set by \<open>lp.setIterationLimit\<close> is \<open>lp_iteration_limit\<close>, no limit
  being \<open>None\<close>; \<open>domain.infeasible()\<close>, \<open>domain.getChangedCols()\<close>,
  \<open>domain.clearChangedCols()\<close> and \<open>domain.setDomainChangeStack\<close> (section 4.2) are
  \<open>domain_infeasible\<close>, \<open>domain_changed_cols\<close> and \<open>domain_change_stack\<close>;
  \<open>nodequeue.empty()\<close> and \<open>nodequeue.clear()\<close> (section 4.1) read and empty the list
  \<open>nodequeue\<close>.
\<close>

record MipData =
  nodequeue :: "OpenNode list"
  lower_bound :: real
  upper_bound :: real
  upper_limit :: real
  num_nodes :: "64 word"
  num_leaves :: "64 word"
  last_displeave :: "64 word"
  dispfreq :: "64 word"
  pruned_treeweight :: real
  lp_iteration_limit :: "int option"
  lp_num_iterations :: "64 word"
  lp_status :: Status
  lp_stored_basis :: "HighsBasis option"
  domain_infeasible :: bool
  domain_changed_cols :: "nat list"
  domain_change_stack :: "nat list"
  search_nodes :: "OpenNode list"
  printed :: "Message list"

text \<open>
  The member functions that \<open>run\<close> calls and whose bodies are not at hand. Each may
  read and change the whole state. \<open>backtrack\<close> also returns its \<open>bool\<close>.

  Two more parameters stand for what neither the source nor the specification fixes:
  \<open>tie_break\<close> tells which of several queued nodes of the same best estimate
  \<open>popBestNode\<close> takes (its position among them), and \<open>limit_out_of_range\<close> is the
  value of the expression of lines 57 to 58 where C++ leaves it to the platform (see
  \<open>dive_iteration_limit\<close>).
\<close>

record 'x Collaborators =
  timer_start :: "'x MipData_scheme \<Rightarrow> 'x MipData_scheme"
  timer_stop :: "'x MipData_scheme \<Rightarrow> 'x MipData_scheme"
  mip_setup :: "'x MipData_scheme \<Rightarrow> 'x MipData_scheme"
  evaluateRootNode :: "'x MipData_scheme \<Rightarrow> 'x MipData_scheme"
  printDisplayLine :: "'x MipData_scheme \<Rightarrow> 'x MipData_scheme"
  dive :: "'x MipData_scheme \<Rightarrow> 'x MipData_scheme"
  flushStatistics :: "'x MipData_scheme \<Rightarrow> 'x MipData_scheme"
  backtrack :: "'x MipData_scheme \<Rightarrow> bool \<times> 'x MipData_scheme"
  getCurrentEstimate :: "'x MipData_scheme \<Rightarrow> real"
  propagate :: "'x MipData_scheme \<Rightarrow> 'x MipData_scheme"
  resetLocalDomain :: "'x MipData_scheme \<Rightarrow> 'x MipData_scheme"
  recoverBasis :: "'x MipData_scheme \<Rightarrow> 'x MipData_scheme"
  evaluateNode :: "'x MipData_scheme \<Rightarrow> 'x MipData_scheme"
  currentNodePruned :: "'x MipData_scheme \<Rightarrow> bool"
  separate :: "'x MipData_scheme \<Rightarrow> 'x MipData_scheme"
  storeBasis :: "'x MipData_scheme \<Rightarrow> 'x MipData_scheme"
  tie_break :: "OpenNode list \<Rightarrow> nat"
  limit_out_of_range :: "64 word \<Rightarrow> 64 word \<Rightarrow> int"

subsection \<open>The node queue\<close>

text \<open>
  Modelled from the spec: \<open>HighsNodeQueue\<close> (section 4.1) is not part of the sources. The
  queue is the list of its nodes in insertion order. \<open>popBestBoundNode\<close> removes and
  returns the node with minimum lower bound, ties broken by insertion order;
  \<open>popBestNode\<close> removes a node with the best (least) branching estimate, and since
  no tie rule is given for it, the parameter \<open>tie_break\<close> picks among the nodes of the
  best estimate; \<open>getBestLowerBound\<close> is the minimum bound over all queued nodes, or
  the incumbent bound if the queue is empty. Popping from an empty queue has no
  result.
\<close>

definition pop_least :: "(OpenNode \<Rightarrow> real) \<Rightarrow> OpenNode list \<Rightarrow> (OpenNode \<times> OpenNode list) option" where
  "pop_least key q =
     (if q = [] then None
      else let n = arg_min_list key q in Some (n, remove1 n q))"

definition popBestBoundNode :: "OpenNode list \<Rightarrow> (OpenNode \<times> OpenNode list) option" where
  "popBestBoundNode q = pop_least node_lower_bound q"

definition popBestNode :: "'x Collaborators \<Rightarrow> OpenNode list \<Rightarrow> (OpenNode \<times> OpenNode list) option" where
  "popBestNode c q =
     (if q = [] then None
      else let best = filter (\<lambda>n. \<forall>m\<in>set q. node_estimate n \<le> node_estimate m) q;
               n = best ! (tie_break c best mod length best)
           in Some (n, remove1 n q))"

definition getBestLowerBound :: "OpenNode list \<Rightarrow> real \<Rightarrow> real" where
  "getBestLowerBound q incumbent =
     (if q = [] then incumbent else Min (set (map node_lower_bound q)))"

subsection \<open>The search controller, as far as the orchestrator sees it\<close>

text \<open>
  Modelled from the spec: \<open>HighsSearch\<close> (section 4.6) is not part of the sources. The
  search holds the open nodes it has collected, the installed one first. \<open>installNode\<close>
  makes a node the installed one, \<open>hasNode\<close> tells whether the search holds a node, and
  \<open>openNodesToQueue\<close> transfers all open nodes the search holds into the queue, after
  which the search holds none (the source asserts \<open>!search.hasNode()\<close> there).
\<close>

definition hasNode :: "'x MipData_scheme \<Rightarrow> bool" where
  "hasNode s = (search_nodes s \<noteq> [])"

definition installNode :: "OpenNode \<Rightarrow> 'x MipData_scheme \<Rightarrow> 'x MipData_scheme" where
  "installNode n s = s\<lparr>search_nodes := n # search_nodes s\<rparr>"

definition openNodesToQueue :: "'x MipData_scheme \<Rightarrow> 'x MipData_scheme" where
  "openNodesToQueue s = s\<lparr>nodequeue := nodequeue s @ search_nodes s, search_nodes := []\<rparr>"

subsection \<open>Small steps of \<open>run\<close>\<close>

definition printf :: "Message \<Rightarrow> 'x MipData_scheme \<Rightarrow> 'x MipData_scheme" where
  "printf m s = s\<lparr>printed := printed s @ [m]\<rparr>"

text \<open>
  Modelled from the spec: \<open>lp.setIterationLimit(n)\<close> (section 4.3) caps the work of
  each solve; the call without argument removes the limit (\<open>None\<close>).
\<close>

definition setIterationLimit :: "int option \<Rightarrow> 'x MipData_scheme \<Rightarrow> 'x MipData_scheme" where
  "setIterationLimit l s = s\<lparr>lp_iteration_limit := l\<rparr>"

text \<open>
  Lines 56 to 58: \<open>10 * int(getNumLpIterations() / (double)std::max(size_t{1}, num_nodes))\<close>.
  Both counters are converted to \<open>double\<close>, which is exact while they are below \<open>2^53\<close>;
  the \<open>double\<close> quotient of two such values, truncated by the conversion to \<open>int\<close>, is
  then their integer quotient; and ten times it is an \<open>int\<close> while the quotient is at
  most 214748364. That is the range \<open>exact_range\<close>, where 9007199254740992 is \<open>2^53\<close>. Outside it the value depends on the rounding of
  \<open>double\<close>, or the conversion or the product overflows the 32-bit \<open>int\<close>, which C++
  leaves undefined: there the value is the parameter \<open>limit_out_of_range\<close>.
\<close>

definition exact_range :: "64 word \<Rightarrow> 64 word \<Rightarrow> bool" where
  "exact_range iters nodes =
     (iters < 9007199254740992 \<and> nodes < 9007199254740992
      \<and> iters div max 1 nodes \<le> 214748364)"

definition dive_iteration_limit :: "'x Collaborators \<Rightarrow> 'x MipData_scheme \<Rightarrow> int" where
  "dive_iteration_limit c s =
     (if exact_range (lp_num_iterations s) (num_nodes s)
      then 10 * int (unat (lp_num_iterations s) div unat (max 1 (num_nodes s)))
      else limit_out_of_range c (lp_num_iterations s) (num_nodes s))"

definition set_dive_limit :: "'x Collaborators \<Rightarrow> 'x MipData_scheme \<Rightarrow> 'x MipData_scheme" where
  "set_dive_limit c s = setIterationLimit (Some (dive_iteration_limit c s)) s"

text \<open>Lines 73 to 77 and 85 to 88: the display line, every \<open>dispfreq\<close> leaves.\<close>

definition maybe_display :: "'x Collaborators \<Rightarrow> 'x MipData_scheme \<Rightarrow> 'x MipData_scheme" where
  "maybe_display c s =
     (if dispfreq s \<noteq> 0
      then (if num_leaves s - last_displeave s \<ge> dispfreq s then printDisplayLine c s else s)
      else s)"

text \<open>Lines 82 to 83 and 153 to 154: the global lower bound.\<close>

definition update_lower_bound :: "'x MipData_scheme \<Rightarrow> 'x MipData_scheme" where
  "update_lower_bound s =
     s\<lparr>lower_bound := min (upper_bound s) (getBestLowerBound (nodequeue s) (upper_bound s))\<rparr>"

subsection \<open>The plunge (lines 62 to 80)\<close>

text \<open>One pass through the body up to the call to \<open>backtrack\<close> (lines 63 to 67).\<close>

definition plunge_round :: "'x Collaborators \<Rightarrow> 'x MipData_scheme \<Rightarrow> bool \<times> 'x MipData_scheme" where
  "plunge_round c s =
     (let s1 = dive c s;
          s2 = s1\<lparr>num_leaves := num_leaves s1 + 1\<rparr>;
          s3 = flushStatistics c s2
      in backtrack c s3)"

text \<open>
  The loop \<open>while (true)\<close> need not end, so it takes fuel: \<open>None\<close> means that the fuel
  ran out before a \<open>break\<close>.
\<close>

fun plunge :: "nat \<Rightarrow> 'x Collaborators \<Rightarrow> 64 word \<Rightarrow> 'x MipData_scheme \<Rightarrow> 'x MipData_scheme option" where
  "plunge 0 c plungestart s = None"
| "plunge (Suc k) c plungestart s =
     (case plunge_round c s of (ok, s4) \<Rightarrow>
        if \<not> ok then Some s4
        else if getCurrentEstimate c s4 \<ge> upper_limit s4 then Some s4
        else if num_nodes s4 - plungestart \<ge> 1000 then Some s4
        else plunge k c plungestart (maybe_display c s4))"

subsection \<open>After the plunge (lines 81 to 124)\<close>

text \<open>Lines 56 to 80: the iteration limit for the dive, \<open>plungestart\<close>, the plunge.\<close>

definition start_plunge :: "nat \<Rightarrow> 'x Collaborators \<Rightarrow> 'x MipData_scheme \<Rightarrow> 'x MipData_scheme option" where
  "start_plunge k c s = (let s1 = set_dive_limit c s in plunge k c (num_nodes s1) s1)"

text \<open>Lines 81 to 83: the open nodes go to the queue, the lower bound is recomputed.\<close>

definition collect_open_nodes :: "'x MipData_scheme \<Rightarrow> 'x MipData_scheme" where
  "collect_open_nodes s = update_lower_bound (openNodesToQueue s)"

text \<open>Lines 56 to 94: one plunge, up to and including the global propagation.\<close>

definition dive_phase :: "nat \<Rightarrow> 'x Collaborators \<Rightarrow> 'x MipData_scheme \<Rightarrow> 'x MipData_scheme option" where
  "dive_phase k c s =
     (case start_plunge k c s of
        None \<Rightarrow> None
      | Some s2 \<Rightarrow> Some (propagate c (maybe_display c (collect_open_nodes s2))))"

text \<open>Lines 106 to 110: what the loop leaves behind when the domain is infeasible.\<close>

definition close_tree :: "'x MipData_scheme \<Rightarrow> 'x MipData_scheme" where
  "close_tree s = s\<lparr>nodequeue := [], pruned_treeweight := 1\<rparr>"

text \<open>Lines 113 to 121: global bound changes reset the local domain.\<close>

definition refresh_local_domain :: "'x Collaborators \<Rightarrow> 'x MipData_scheme \<Rightarrow> 'x MipData_scheme" where
  "refresh_local_domain c s =
     (if domain_changed_cols s \<noteq> [] then
        let s1 = printf (AddedGlobalBoundChanges (length (domain_changed_cols s))) s;
            s2 = s1\<lparr>domain_change_stack := []\<rparr>;
            s3 = resetLocalDomain c s2
        in s3\<lparr>domain_changed_cols := []\<rparr>
      else s)"

text \<open>Lines 113 to 124: the state in which the loop over the queue starts.\<close>

definition pre_install :: "'x Collaborators \<Rightarrow> 'x MipData_scheme \<Rightarrow> 'x MipData_scheme" where
  "pre_install c s = setIterationLimit None (refresh_local_domain c s)"

subsection \<open>Installing the next node from the queue (lines 127 to 170)\<close>

definition setStoredBasis :: "HighsBasis option \<Rightarrow> 'x MipData_scheme \<Rightarrow> 'x MipData_scheme" where
  "setStoredBasis b s = s\<lparr>lp_stored_basis := b\<rparr>"

text \<open>
  Lines 136 to 139. The local \<open>basis\<close> is a \<open>std::shared_ptr\<close>, null (\<open>None\<close>) until line
  167 has assigned it.
\<close>

definition restore_basis :: "'x Collaborators \<Rightarrow> HighsBasis option \<Rightarrow> 'x MipData_scheme \<Rightarrow> 'x MipData_scheme" where
  "restore_basis c basis s =
     (case basis of
        None \<Rightarrow> s
      | Some b \<Rightarrow> recoverBasis c (setStoredBasis (Some b) s))"

text \<open>Lines 149 to 154: a pruned node is removed and counted.\<close>

definition prune_update :: "'x Collaborators \<Rightarrow> 'x MipData_scheme \<Rightarrow> 'x MipData_scheme" where
  "prune_update c s =
     (let s1 = snd (backtrack c s);
          s2 = s1\<lparr>num_leaves := num_leaves s1 + 1\<rparr>;
          s3 = s2\<lparr>num_nodes := num_nodes s2 + 1\<rparr>;
          s4 = flushStatistics c s3
      in update_lower_bound s4)"

text \<open>Lines 163 to 167: the basis after separation, and the new value of \<open>basis\<close>.\<close>

definition keep_basis :: "'x Collaborators \<Rightarrow> 'x MipData_scheme \<Rightarrow> 'x MipData_scheme \<times> HighsBasis option" where
  "keep_basis c s =
     (let s1 = (if lp_status s \<noteq> Error \<and> lp_status s \<noteq> NotSet then storeBasis c s else s)
      in (s1, lp_stored_basis s1))"

text \<open>
  Lines 144 to 169 for the node just installed: \<open>Inl\<close> when it was pruned (the loop
  goes on, \<open>continue\<close>), \<open>Inr\<close> with the new \<open>basis\<close> when it survived (\<open>break\<close>).
\<close>

definition evaluate_restored :: "'x Collaborators \<Rightarrow> 'x MipData_scheme \<Rightarrow> 'x MipData_scheme + 'x MipData_scheme \<times> HighsBasis option" where
  "evaluate_restored c s =
     (let s3 = evaluateNode c s
      in if currentNodePruned c s3 then Inl (prune_update c s3)
         else Inr (keep_basis c (separate c s3)))"

text \<open>Lines 131 to 169 for the popped node \<open>n\<close> and the rest \<open>q'\<close> of the queue.\<close>

definition install_next :: "'x Collaborators \<Rightarrow> HighsBasis option \<Rightarrow> OpenNode \<Rightarrow> OpenNode list \<Rightarrow> 'x MipData_scheme \<Rightarrow> 'x MipData_scheme + 'x MipData_scheme \<times> HighsBasis option" where
  "install_next c basis n q' s =
     evaluate_restored c (restore_basis c basis (installNode n (s\<lparr>nodequeue := q'\<rparr>)))"

fun install_loop :: "nat \<Rightarrow> 'x Collaborators \<Rightarrow> HighsBasis option \<Rightarrow> 'x MipData_scheme \<Rightarrow> ('x MipData_scheme \<times> HighsBasis option) option" where
  "install_loop 0 c basis s = None"
| "install_loop (Suc k) c basis s =
     (case popBestNode c (nodequeue s) of
        None \<Rightarrow> Some (s, basis)
      | Some (n, q') \<Rightarrow>
          (case install_next c basis n q' s of
             Inl s' \<Rightarrow> install_loop k c basis s'
           | Inr r \<Rightarrow> Some r))"

subsection \<open>The search loop (lines 52 to 171) and \<open>run\<close>\<close>

fun run_loop :: "nat \<Rightarrow> 'x Collaborators \<Rightarrow> HighsBasis option \<Rightarrow> 'x MipData_scheme \<Rightarrow> 'x MipData_scheme option" where
  "run_loop 0 c basis s = None"
| "run_loop (Suc k) c basis s =
     (if \<not> hasNode s then Some s
      else case dive_phase k c s of
        None \<Rightarrow> None
      | Some s6 \<Rightarrow>
          if domain_infeasible s6 then Some (close_tree s6)
          else (case install_loop k c basis (pre_install c s6) of
                  None \<Rightarrow> None
                | Some (s9, basis') \<Rightarrow> run_loop k c basis' s9))"

text \<open>Lines 29 to 32: the solver data is set up and the root node evaluated.\<close>

definition root_phase :: "'x Collaborators \<Rightarrow> 'x MipData_scheme \<Rightarrow> 'x MipData_scheme" where
  "root_phase c s = evaluateRootNode c (mip_setup c (timer_start c s))"

text \<open>
  Lines 40 to 50: the search is constructed (it holds no node), the lower bound is read
  from the queue, and the first node is installed. The queue is not empty here, so
  the \<open>None\<close> of an empty queue cannot arise.
\<close>

definition install_first :: "'x MipData_scheme \<Rightarrow> 'x MipData_scheme option" where
  "install_first s =
     (let s1 = printf StartingTreeSearch s;
          s2 = s1\<lparr>search_nodes := []\<rparr>;
          s3 = s2\<lparr>lower_bound := getBestLowerBound (nodequeue s2) (upper_bound s2)\<rparr>
      in case popBestBoundNode (nodequeue s3) of
           None \<Rightarrow> None
         | Some (n, q') \<Rightarrow> Some (installNode n (s3\<lparr>nodequeue := q'\<rparr>)))"

text \<open>
  \<open>HighsMipSolver::run\<close>. The argument is the freshly constructed solver data; the
  result is \<open>None\<close> when the fuel of the loops ran out.
\<close>

definition run :: "nat \<Rightarrow> 'x Collaborators \<Rightarrow> 'x MipData_scheme \<Rightarrow> 'x MipData_scheme option" where
  "run k c s =
     (let s3 = root_phase c s
      in if nodequeue s3 = [] then Some (timer_stop c (printf SolvedInRootNode s3))
         else (case install_first s3 of
                 None \<Rightarrow> None
               | Some s6 \<Rightarrow>
                   (case run_loop k c None s6 of
                      None \<Rightarrow> None
                    | Some s7 \<Rightarrow> Some (printDisplayLine c (timer_stop c s7)))))"

subsection \<open>A scripted set of collaborators, for concrete runs\<close>

text \<open>
  The extension carries what the scripted collaborators need: a stop flag of an
  external limiter, the number of nodes one dive creates, for each call of \<open>dive\<close> the
  nodes the search held and the iteration limit in force, for each call of
  \<open>recoverBasis\<close> the nodes the search held and the basis that was recovered, and the
  leaf count from which the scripted global propagation finds the domain empty.
  Nodes are recorded by their references.
\<close>

record ToyWorld = MipData +
  should_stop :: bool
  nodes_per_dive :: "64 word"
  dives :: "(nat list \<times> int option) list"
  recovered :: "(nat list \<times> HighsBasis option) list"
  infeasible_at :: "64 word"

definition toy_dive :: "ToyWorld \<Rightarrow> ToyWorld" where
  "toy_dive s = s\<lparr>num_nodes := num_nodes s + nodes_per_dive s,
                 dives := dives s @ [(map domchg_ref (search_nodes s), lp_iteration_limit s)]\<rparr>"

definition toy_backtrack :: "ToyWorld \<Rightarrow> bool \<times> ToyWorld" where
  "toy_backtrack s =
     (case search_nodes s of
        [] \<Rightarrow> (False, s)
      | n # rest \<Rightarrow> (rest \<noteq> [], s\<lparr>search_nodes := rest\<rparr>))"

definition toy_estimate :: "ToyWorld \<Rightarrow> real" where
  "toy_estimate s = (case search_nodes s of [] \<Rightarrow> 0 | n # rest \<Rightarrow> node_estimate n)"

definition toy_pruned :: "ToyWorld \<Rightarrow> bool" where
  "toy_pruned s =
     (case search_nodes s of [] \<Rightarrow> True | n # rest \<Rightarrow> node_lower_bound n \<ge> upper_limit s)"

definition toy_recoverBasis :: "ToyWorld \<Rightarrow> ToyWorld" where
  "toy_recoverBasis s =
     s\<lparr>recovered := recovered s @ [(map domchg_ref (search_nodes s), lp_stored_basis s)]\<rparr>"

definition toy_storeBasis :: "ToyWorld \<Rightarrow> ToyWorld" where
  "toy_storeBasis s = s\<lparr>lp_stored_basis := Some (map domchg_ref (search_nodes s))\<rparr>"

definition toy_propagate :: "ToyWorld \<Rightarrow> ToyWorld" where
  "toy_propagate s = s\<lparr>domain_infeasible := (num_leaves s \<ge> infeasible_at s)\<rparr>"

definition toy_display :: "ToyWorld \<Rightarrow> ToyWorld" where
  "toy_display s = s\<lparr>last_displeave := num_leaves s\<rparr>"

definition toy :: "unit ToyWorld_ext Collaborators" where
  "toy = \<lparr>timer_start = (\<lambda>s. s), timer_stop = (\<lambda>s. s), mip_setup = (\<lambda>s. s),
          evaluateRootNode = (\<lambda>s. s), printDisplayLine = toy_display, dive = toy_dive,
          flushStatistics = (\<lambda>s. s), backtrack = toy_backtrack,
          getCurrentEstimate = toy_estimate, propagate = toy_propagate,
          resetLocalDomain = (\<lambda>s. s), recoverBasis = toy_recoverBasis,
          evaluateNode = (\<lambda>s. s), currentNodePruned = toy_pruned, separate = (\<lambda>s. s),
          storeBasis = toy_storeBasis, tie_break = (\<lambda>best. 0),
          limit_out_of_range = (\<lambda>iters nodes. 0)\<rparr>"

definition mk_node :: "nat \<Rightarrow> real \<Rightarrow> real \<Rightarrow> nat \<Rightarrow> OpenNode" where
  "mk_node r lb est d = \<lparr>domchg_ref = r, node_lower_bound = lb, node_estimate = est, node_depth = d\<rparr>"

text \<open>
  A state after the root node: the given queue and search nodes, an incumbent of
  value 100, fifteen LP iterations over ten nodes, one node per dive, a raised stop
  flag, and a domain that stays feasible for the first 999 leaves.
\<close>

definition toy_state :: "OpenNode list \<Rightarrow> OpenNode list \<Rightarrow> ToyWorld" where
  "toy_state q ns =
     \<lparr>nodequeue = q, lower_bound = 0, upper_bound = 100, upper_limit = 100,
      num_nodes = 10, num_leaves = 0, last_displeave = 0, dispfreq = 0,
      pruned_treeweight = 0, lp_iteration_limit = Some 7, lp_num_iterations = 15,
      lp_status = Optimal, lp_stored_basis = None, domain_infeasible = False,
      domain_changed_cols = [], domain_change_stack = [], search_nodes = ns,
      printed = [], should_stop = True, nodes_per_dive = 1, dives = [],
      recovered = [], infeasible_at = 1000\<rparr>"

text \<open>Three nodes for the concrete runs: reference, lower bound, estimate, depth.\<close>

definition node_a :: OpenNode where
  "node_a = mk_node 5 1 9 1"

definition node_b :: OpenNode where
  "node_b = mk_node 9 2 3 7"

definition node_r :: OpenNode where
  "node_r = mk_node 0 0 0 0"

subsection \<open>The claims' own words\<close>

text \<open>
  The result of the pass number \<open>i\<close> (from 0) through the body of the plunge: what
  \<open>backtrack\<close> returned and the state it left.
\<close>

fun plunge_state :: "'x Collaborators \<Rightarrow> nat \<Rightarrow> 'x MipData_scheme \<Rightarrow> bool \<times> 'x MipData_scheme" where
  "plunge_state c 0 s = plunge_round c s"
| "plunge_state c (Suc i) s = plunge_state c i (maybe_display c (snd (plunge_round c s)))"

text \<open>
  The three conditions under which a plunge is said to stop: \<open>backtrack\<close> failed, or
  the current estimate is at least the cutoff \<open>upper_limit\<close>, or at least 1000 nodes
  were created since the plunge started.
\<close>

definition plunge_stops :: "'x Collaborators \<Rightarrow> 64 word \<Rightarrow> bool \<times> 'x MipData_scheme \<Rightarrow> bool" where
  "plunge_stops c plungestart r =
     (\<not> fst r \<or> getCurrentEstimate c (snd r) \<ge> upper_limit (snd r)
      \<or> num_nodes (snd r) - plungestart \<ge> 1000)"

text \<open>The minimum of the incumbent bound and the lower bounds of the queued nodes.\<close>

definition global_bound :: "'x MipData_scheme \<Rightarrow> real" where
  "global_bound s = Min (insert (upper_bound s) (node_lower_bound ` set (nodequeue s)))"

text \<open>
  The collaborators \<open>c\<close> with \<open>evaluateNode\<close> made to run without an iteration limit.
\<close>

definition uncapped :: "'x Collaborators \<Rightarrow> 'x Collaborators" where
  "uncapped c = c\<lparr>evaluateNode := (\<lambda>s. evaluateNode c (s\<lparr>lp_iteration_limit := None\<rparr>))\<rparr>"

section \<open>Properties\<close>

subsection \<open>The plunge\<close>

lemma plunge_Suc:
  "plunge (Suc k) c st s =
     (if plunge_stops c st (plunge_round c s) then Some (snd (plunge_round c s))
      else plunge k c st (maybe_display c (snd (plunge_round c s))))"
  by (simp add: plunge_stops_def split: prod.splits)

text \<open>A plunge returns the state after the first pass at which a stop condition holds.\<close>

lemma plunge_first_stop:
  "plunge k c st s = Some s' \<longleftrightarrow>
     (\<exists>i<k. snd (plunge_state c i s) = s' \<and> plunge_stops c st (plunge_state c i s)
        \<and> (\<forall>j<i. \<not> plunge_stops c st (plunge_state c j s)))"
proof (induction k arbitrary: s)
  case 0
  show ?case by simp
next
  case (Suc k)
  let ?r = "plunge_round c s"
  let ?t = "maybe_display c (snd ?r)"
  show ?case
  proof (cases "plunge_stops c st ?r")
    case True
    have "(\<exists>i<Suc k. snd (plunge_state c i s) = s' \<and> plunge_stops c st (plunge_state c i s)
        \<and> (\<forall>j<i. \<not> plunge_stops c st (plunge_state c j s))) \<longleftrightarrow> snd ?r = s'"
    proof
      assume "\<exists>i<Suc k. snd (plunge_state c i s) = s' \<and> plunge_stops c st (plunge_state c i s)
        \<and> (\<forall>j<i. \<not> plunge_stops c st (plunge_state c j s))"
      then obtain i where i: "snd (plunge_state c i s) = s'"
        "\<forall>j<i. \<not> plunge_stops c st (plunge_state c j s)" by blast
      have "i = 0"
      proof (rule ccontr)
        assume "i \<noteq> 0"
        then have "\<not> plunge_stops c st (plunge_state c 0 s)" using i(2) by blast
        then show False using True by simp
      qed
      then show "snd ?r = s'" using i(1) by simp
    next
      assume "snd ?r = s'"
      then have "snd (plunge_state c 0 s) = s' \<and> plunge_stops c st (plunge_state c 0 s)
        \<and> (\<forall>j<0. \<not> plunge_stops c st (plunge_state c j s))" using True by simp
      then show "\<exists>i<Suc k. snd (plunge_state c i s) = s' \<and> plunge_stops c st (plunge_state c i s)
        \<and> (\<forall>j<i. \<not> plunge_stops c st (plunge_state c j s))" by blast
    qed
    then show ?thesis using True by (auto simp only: plunge_Suc if_True option.inject)
  next
    case False
    have "(\<exists>i<Suc k. snd (plunge_state c i s) = s' \<and> plunge_stops c st (plunge_state c i s)
        \<and> (\<forall>j<i. \<not> plunge_stops c st (plunge_state c j s)))
       \<longleftrightarrow> (\<exists>i<k. snd (plunge_state c i ?t) = s' \<and> plunge_stops c st (plunge_state c i ?t)
        \<and> (\<forall>j<i. \<not> plunge_stops c st (plunge_state c j ?t)))" (is "?L \<longleftrightarrow> ?R")
    proof
      assume ?L
      then obtain i where i: "i < Suc k" "snd (plunge_state c i s) = s'"
        "plunge_stops c st (plunge_state c i s)"
        "\<forall>j<i. \<not> plunge_stops c st (plunge_state c j s)" by blast
      have "i \<noteq> 0" using i(3) False by (cases i) auto
      then obtain i' where i': "i = Suc i'" by (cases i) auto
      have "\<forall>j<i'. \<not> plunge_stops c st (plunge_state c j ?t)"
      proof (intro allI impI)
        fix j assume "j < i'"
        then have "Suc j < i" using i' by simp
        then have "\<not> plunge_stops c st (plunge_state c (Suc j) s)" using i(4) by blast
        then show "\<not> plunge_stops c st (plunge_state c j ?t)" by simp
      qed
      moreover have "i' < k" using i(1) i' by simp
      moreover have "snd (plunge_state c i' ?t) = s'" using i(2) i' by simp
      moreover have "plunge_stops c st (plunge_state c i' ?t)" using i(3) i' by simp
      ultimately show ?R by blast
    next
      assume ?R
      then obtain i where i: "i < k" "snd (plunge_state c i ?t) = s'"
        "plunge_stops c st (plunge_state c i ?t)"
        "\<forall>j<i. \<not> plunge_stops c st (plunge_state c j ?t)" by blast
      have "\<forall>j<Suc i. \<not> plunge_stops c st (plunge_state c j s)"
      proof (intro allI impI)
        fix j assume j: "j < Suc i"
        show "\<not> plunge_stops c st (plunge_state c j s)"
        proof (cases j)
          case 0
          then show ?thesis using False by simp
        next
          case (Suc j')
          then have "j' < i" using j by simp
          then have "\<not> plunge_stops c st (plunge_state c j' ?t)" using i(4) by blast
          then show ?thesis using Suc by simp
        qed
      qed
      moreover have "Suc i < Suc k" using i(1) by simp
      moreover have "snd (plunge_state c (Suc i) s) = s'" using i(2) by simp
      moreover have "plunge_stops c st (plunge_state c (Suc i) s)" using i(3) by simp
      ultimately show ?L by blast
    qed
    moreover have "plunge (Suc k) c st s = plunge k c st ?t"
      using False by (simp only: plunge_Suc if_False)
    ultimately show ?thesis using Suc.IH [of ?t] by simp
  qed
qed

text \<open>More fuel does not change the result of a plunge that returned.\<close>

lemma plunge_fuel: "plunge k c st s = Some r \<Longrightarrow> plunge (k + j) c st s = Some r"
proof (induction k arbitrary: s)
  case 0
  then show ?case by simp
next
  case (Suc k)
  show ?case
  proof (cases "plunge_stops c st (plunge_round c s)")
    case True
    then show ?thesis using Suc.prems by (simp only: plunge_Suc add_Suc if_True)
  next
    case False
    then have "plunge k c st (maybe_display c (snd (plunge_round c s))) = Some r"
      using Suc.prems by (simp only: plunge_Suc if_False)
    then have "plunge (k + j) c st (maybe_display c (snd (plunge_round c s))) = Some r"
      by (rule Suc.IH)
    then show ?thesis using False by (simp only: plunge_Suc add_Suc if_False)
  qed
qed

lemma dive_phase_fuel:
  assumes "dive_phase k c s = Some r"
  shows "dive_phase (k + j) c s = Some r"
proof -
  obtain s2 where s2: "start_plunge k c s = Some s2"
    using assms by (cases "start_plunge k c s") (simp_all add: dive_phase_def)
  then have "plunge k c (num_nodes (set_dive_limit c s)) (set_dive_limit c s) = Some s2"
    by (simp add: start_plunge_def Let_def)
  then have "plunge (k + j) c (num_nodes (set_dive_limit c s)) (set_dive_limit c s) = Some s2"
    by (rule plunge_fuel)
  then have "start_plunge (k + j) c s = Some s2"
    by (simp add: start_plunge_def Let_def)
  then show ?thesis using assms s2 by (simp add: dive_phase_def)
qed

text \<open>
  Claim C3. The body of the plunge performs, in this order, \<open>dive\<close>, the increment of
  the leaf count, \<open>flushStatistics\<close> and \<open>backtrack\<close>. The plunge of an outer
  iteration, started in state \<open>s\<close>, returns state \<open>s'\<close> exactly when \<open>s'\<close> is the state
  after the first pass at which \<open>backtrack\<close> failed, or the current estimate was at
  least the cutoff, or 1000 nodes had been created since the plunge started; at no
  earlier pass did any of the three hold.
\<close>

theorem plunge_exit_conditions:
  "plunge_round c s =
     backtrack c (flushStatistics c ((dive c s)\<lparr>num_leaves := num_leaves (dive c s) + 1\<rparr>))
   \<and> (start_plunge k c s = Some s' \<longleftrightarrow>
        (\<exists>i<k. snd (plunge_state c i (set_dive_limit c s)) = s'
           \<and> plunge_stops c (num_nodes s) (plunge_state c i (set_dive_limit c s))
           \<and> (\<forall>j<i. \<not> plunge_stops c (num_nodes s) (plunge_state c j (set_dive_limit c s)))))"
proof -
  have "num_nodes (set_dive_limit c s) = num_nodes s"
    by (simp add: set_dive_limit_def setIterationLimit_def)
  then have "start_plunge k c s = plunge k c (num_nodes s) (set_dive_limit c s)"
    by (simp add: start_plunge_def Let_def)
  then show ?thesis
    by (simp only: plunge_first_stop) (simp add: plunge_round_def Let_def)
qed

text \<open>A plunge over three nodes: \<open>backtrack\<close> fails at the third pass, not before.\<close>

theorem plunge_exit_conditions_witness:
  "start_plunge 5 toy (toy_state [] [node_a, node_b, node_r]) =
     Some (snd (plunge_state toy 2 (set_dive_limit toy (toy_state [] [node_a, node_b, node_r]))))
   \<and> \<not> fst (plunge_state toy 2 (set_dive_limit toy (toy_state [] [node_a, node_b, node_r])))
   \<and> \<not> plunge_stops toy 10 (plunge_state toy 0 (set_dive_limit toy (toy_state [] [node_a, node_b, node_r])))
   \<and> \<not> plunge_stops toy 10 (plunge_state toy 1 (set_dive_limit toy (toy_state [] [node_a, node_b, node_r])))
   \<and> num_leaves (snd (plunge_state toy 2 (set_dive_limit toy (toy_state [] [node_a, node_b, node_r])))) = 3"
proof -
  let ?s = "toy_state [] [node_a, node_b, node_r]"
  let ?p = "\<lambda>i. plunge_state toy i (set_dive_limit toy ?s)"
  have n: "num_nodes ?s = 10" by code_simp
  have f: "\<not> fst (?p 2)" by code_simp
  have s0: "\<not> plunge_stops toy 10 (?p 0)" by code_simp
  have s1: "\<not> plunge_stops toy 10 (?p 1)" by code_simp
  have l: "num_leaves (snd (?p 2)) = 3" by code_simp
  have s2: "plunge_stops toy 10 (?p 2)" using f by (simp add: plunge_stops_def)
  have before: "\<forall>j<2. \<not> plunge_stops toy 10 (?p j)"
  proof (intro allI impI)
    fix j :: nat assume "j < 2"
    then have "j = 0 \<or> j = 1" by arith
    then show "\<not> plunge_stops toy 10 (?p j)" using s0 s1 by auto
  qed
  have "\<exists>i<5. snd (?p i) = snd (?p 2) \<and> plunge_stops toy (num_nodes ?s) (?p i)
          \<and> (\<forall>j<i. \<not> plunge_stops toy (num_nodes ?s) (?p j))"
    using s2 before n by (intro exI [of _ 2]) simp
  then have "start_plunge 5 toy ?s = Some (snd (?p 2))"
    using plunge_exit_conditions [of toy ?s 5 "snd (?p 2)"] by blast
  then show ?thesis using f s0 s1 l by blast
qed

subsection \<open>The queue after the plunge\<close>

lemma update_lower_bound_eq: "update_lower_bound s = s\<lparr>lower_bound := global_bound s\<rparr>"
proof (cases "nodequeue s = []")
  case True
  then show ?thesis by (simp add: update_lower_bound_def getBestLowerBound_def global_bound_def)
next
  case False
  then have "Min (insert (upper_bound s) (node_lower_bound ` set (nodequeue s))) =
     min (upper_bound s) (Min (node_lower_bound ` set (nodequeue s)))"
    by (simp add: Min_insert)
  then show ?thesis using False
    by (simp add: update_lower_bound_def getBestLowerBound_def global_bound_def)
qed

lemma run_loop_infeasible:
  assumes "hasNode s" and "dive_phase k c s = Some s6" and "domain_infeasible s6"
  shows "run_loop (Suc k) c basis s = Some (close_tree s6)"
  using assms by (simp only: run_loop.simps not_True_eq_False if_False option.case if_True)

lemma run_loop_continue:
  "hasNode s \<Longrightarrow> dive_phase k c s = Some s6 \<Longrightarrow> \<not> domain_infeasible s6 \<Longrightarrow>
     run_loop (Suc k) c basis s =
       (case install_loop k c basis (pre_install c s6) of
          None \<Rightarrow> None
        | Some (s9, basis') \<Rightarrow> run_loop k c basis' s9)"
  by (simp only: run_loop.simps not_True_eq_False if_False option.case)

text \<open>
  Claim C2. When the global propagation after a plunge has marked the domain
  infeasible, the search loop ends there, whatever fuel is left: it returns the state
  after the propagation with the queue cleared and the pruned tree weight set to 1.
  Nothing else changes, the search holds the same nodes as after the propagation, and
  the result does not depend on the collaborators that install and evaluate nodes, so
  no further node is installed.
\<close>

theorem infeasible_domain_ends_search:
  assumes "hasNode s" and "dive_phase k c s = Some s6" and "domain_infeasible s6"
  shows "run_loop (Suc (k + j)) c basis s = Some (close_tree s6)
     \<and> nodequeue (close_tree s6) = [] \<and> pruned_treeweight (close_tree s6) = 1
     \<and> search_nodes (close_tree s6) = search_nodes s6
     \<and> (\<forall>c'. dive_phase k c' s = dive_phase k c s \<longrightarrow>
            run_loop (Suc k) c' basis s = run_loop (Suc k) c basis s)"
proof -
  have "dive_phase (k + j) c s = Some s6" using assms(2) by (rule dive_phase_fuel)
  then have 1: "run_loop (Suc (k + j)) c basis s = Some (close_tree s6)"
    by (rule run_loop_infeasible [OF assms(1) _ assms(3)])
  have 2: "\<forall>c'. dive_phase k c' s = dive_phase k c s \<longrightarrow>
            run_loop (Suc k) c' basis s = run_loop (Suc k) c basis s"
  proof (intro allI impI)
    fix c' :: "'a Collaborators"
    assume "dive_phase k c' s = dive_phase k c s"
    then have "dive_phase k c' s = Some s6" using assms(2) by simp
    then have "run_loop (Suc k) c' basis s = Some (close_tree s6)"
      by (rule run_loop_infeasible [OF assms(1) _ assms(3)])
    moreover have "run_loop (Suc k) c basis s = Some (close_tree s6)"
      using assms by (rule run_loop_infeasible)
    ultimately show "run_loop (Suc k) c' basis s = run_loop (Suc k) c basis s" by simp
  qed
  have 3: "nodequeue (close_tree s6) = [] \<and> pruned_treeweight (close_tree s6) = 1
     \<and> search_nodes (close_tree s6) = search_nodes s6"
    by (simp add: close_tree_def)
  show ?thesis using 1 2 3 by blast
qed

text \<open>The domain becomes infeasible after the first leaf: the queue is dropped, the loop ends.\<close>

theorem infeasible_domain_ends_search_witness:
  "hasNode ((toy_state [node_a, node_b] [node_r])\<lparr>infeasible_at := 1\<rparr>)
   \<and> domain_infeasible (the (dive_phase 2 toy ((toy_state [node_a, node_b] [node_r])\<lparr>infeasible_at := 1\<rparr>)))
   \<and> nodequeue (the (dive_phase 2 toy ((toy_state [node_a, node_b] [node_r])\<lparr>infeasible_at := 1\<rparr>))) = [node_a, node_b]
   \<and> run_loop 9 toy None ((toy_state [node_a, node_b] [node_r])\<lparr>infeasible_at := 1\<rparr>) =
       Some (close_tree (the (dive_phase 2 toy ((toy_state [node_a, node_b] [node_r])\<lparr>infeasible_at := 1\<rparr>))))"
proof -
  let ?s = "(toy_state [node_a, node_b] [node_r])\<lparr>infeasible_at := 1\<rparr>"
  have h: "hasNode ?s" by code_simp
  have d: "dive_phase 2 toy ?s = Some (the (dive_phase 2 toy ?s))" by code_simp
  have i: "domain_infeasible (the (dive_phase 2 toy ?s))" by code_simp
  have q: "nodequeue (the (dive_phase 2 toy ?s)) = [node_a, node_b]" by code_simp
  have "run_loop (Suc (2 + 6)) toy None ?s = Some (close_tree (the (dive_phase 2 toy ?s)))"
    using infeasible_domain_ends_search [OF h d i, of 6 None] by blast
  moreover have "Suc (2 + 6) = (9::nat)" by simp
  ultimately have "run_loop 9 toy None ?s = Some (close_tree (the (dive_phase 2 toy ?s)))"
    by (simp only:)
  then show ?thesis using h i q by blast
qed

text \<open>
  Claim C4. Whenever the plunge of an outer iteration has stopped, in particular when
  the cap of 1000 nodes stopped it, the next step moves every open node the search
  holds to the end of the queue: the queue then holds its former nodes and all open
  nodes of the search, and the search holds none. The global propagation runs on the
  state so obtained.
\<close>

theorem open_nodes_reach_queue:
  assumes "start_plunge k c s = Some s2"
  shows "dive_phase k c s = Some (propagate c (maybe_display c (collect_open_nodes s2)))
    \<and> nodequeue (collect_open_nodes s2) = nodequeue s2 @ search_nodes s2
    \<and> mset (nodequeue (collect_open_nodes s2)) = mset (nodequeue s2) + mset (search_nodes s2)
    \<and> search_nodes (collect_open_nodes s2) = []"
  using assms
  by (simp add: dive_phase_def collect_open_nodes_def update_lower_bound_eq openNodesToQueue_def)

text \<open>A dive creating 1000 nodes stops the plunge at the cap; the open node \<open>node_b\<close> reaches the queue.\<close>

theorem open_nodes_reach_queue_witness:
  "fst (plunge_state toy 0 (set_dive_limit toy ((toy_state [node_r] [node_a, node_b])\<lparr>nodes_per_dive := 1000\<rparr>)))
   \<and> num_nodes (the (start_plunge 3 toy ((toy_state [node_r] [node_a, node_b])\<lparr>nodes_per_dive := 1000\<rparr>)))
       - num_nodes ((toy_state [node_r] [node_a, node_b])\<lparr>nodes_per_dive := 1000\<rparr>) = 1000
   \<and> search_nodes (the (start_plunge 3 toy ((toy_state [node_r] [node_a, node_b])\<lparr>nodes_per_dive := 1000\<rparr>))) = [node_b]
   \<and> nodequeue (collect_open_nodes (the (start_plunge 3 toy ((toy_state [node_r] [node_a, node_b])\<lparr>nodes_per_dive := 1000\<rparr>)))) = [node_r, node_b]
   \<and> search_nodes (collect_open_nodes (the (start_plunge 3 toy ((toy_state [node_r] [node_a, node_b])\<lparr>nodes_per_dive := 1000\<rparr>)))) = []"
proof -
  let ?s = "(toy_state [node_r] [node_a, node_b])\<lparr>nodes_per_dive := 1000\<rparr>"
  let ?s2 = "the (start_plunge 3 toy ?s)"
  have e: "start_plunge 3 toy ?s = Some ?s2" by code_simp
  have b: "fst (plunge_state toy 0 (set_dive_limit toy ?s))" by code_simp
  have n: "num_nodes ?s2 - num_nodes ?s = 1000" by code_simp
  have q: "nodequeue ?s2 = [node_r]" by code_simp
  have o: "search_nodes ?s2 = [node_b]" by code_simp
  have "nodequeue (collect_open_nodes ?s2) = nodequeue ?s2 @ search_nodes ?s2
     \<and> search_nodes (collect_open_nodes ?s2) = []"
    using open_nodes_reach_queue [OF e] by blast
  then show ?thesis using b n q o by simp
qed



subsection \<open>Which node is popped\<close>

lemma arg_min_list_first:
  "q \<noteq> [] \<Longrightarrow> \<exists>ys zs. q = ys @ arg_min_list key q # zs
      \<and> (\<forall>y\<in>set ys. key (arg_min_list key q) < key y)
      \<and> (\<forall>z\<in>set zs. key (arg_min_list key q) \<le> key z)"
proof (induction key q rule: arg_min_list.induct)
  case (1 f x)
  have "[x] = [] @ arg_min_list f [x] # []" by simp
  then show ?case by fastforce
next
  case (2 f x y zs)
  let ?m = "arg_min_list f (y # zs)"
  from 2 obtain ys' zs' where split: "y # zs = ys' @ ?m # zs'"
    and before: "\<forall>a\<in>set ys'. f ?m < f a" and after: "\<forall>a\<in>set zs'. f ?m \<le> f a"
    by fastforce
  have all: "\<forall>a\<in>set (y # zs). f ?m \<le> f a"
  proof
    fix a assume "a \<in> set (y # zs)"
    then have "a \<in> set ys' \<or> a = ?m \<or> a \<in> set zs'"
      by (subst (asm) split) auto
    then show "f ?m \<le> f a" using before after by auto
  qed
  show ?case
  proof (cases "f x \<le> f ?m")
    case True
    then have m: "arg_min_list f (x # y # zs) = x" by (simp add: Let_def)
    have "x # y # zs = [] @ x # (y # zs)" by simp
    moreover have "\<forall>a\<in>set (y # zs). f x \<le> f a" using True all by force
    ultimately show ?thesis unfolding m by (metis empty_iff list.set(1))
  next
    case False
    then have m: "arg_min_list f (x # y # zs) = ?m" by (simp add: Let_def)
    have "x # y # zs = (x # ys') @ ?m # zs'" using split by simp
    moreover have "\<forall>a\<in>set (x # ys'). f ?m < f a" using False before by auto
    ultimately show ?thesis unfolding m using after by blast
  qed
next
  case (3 f)
  then show ?case by simp
qed

lemma pop_least_first:
  assumes "q \<noteq> []"
  shows "\<exists>n ys zs. q = ys @ n # zs \<and> (\<forall>y\<in>set ys. key n < key y)
      \<and> (\<forall>z\<in>set zs. key n \<le> key z) \<and> pop_least key q = Some (n, ys @ zs)"
proof -
  let ?n = "arg_min_list key q"
  obtain ys zs where split: "q = ys @ ?n # zs"
    and before: "\<forall>y\<in>set ys. key ?n < key y" and after: "\<forall>z\<in>set zs. key ?n \<le> key z"
    using arg_min_list_first [OF assms, of key] by blast
  have "?n \<notin> set ys" using before by auto
  then have "remove1 ?n (ys @ ?n # zs) = ys @ zs" by (simp add: remove1_append)
  then have "remove1 ?n q = ys @ zs" using split by simp
  then have "pop_least key q = Some (?n, ys @ zs)" using assms by (simp add: pop_least_def Let_def)
  then show ?thesis using split before after by blast
qed

lemma popBestNode_None: "(popBestNode c q = None) = (q = [])"
  by (simp add: popBestNode_def Let_def)

text \<open>Whatever the tie rule, \<open>popBestNode\<close> takes a queued node of least estimate out of the queue.\<close>

lemma popBestNode_least:
  assumes "q \<noteq> []"
  shows "\<exists>n ys zs. q = ys @ n # zs \<and> n \<notin> set ys
      \<and> (\<forall>m\<in>set q. node_estimate n \<le> node_estimate m)
      \<and> popBestNode c q = Some (n, ys @ zs)"
proof -
  let ?best = "filter (\<lambda>n. \<forall>m\<in>set q. node_estimate n \<le> node_estimate m) q"
  let ?n = "?best ! (tie_break c ?best mod length ?best)"
  have "arg_min_list node_estimate q \<in> set q" using assms by (rule arg_min_list_in)
  moreover have "\<forall>m\<in>set q. node_estimate (arg_min_list node_estimate q) \<le> node_estimate m"
    using assms by (simp add: f_arg_min_list_f)
  ultimately have "arg_min_list node_estimate q \<in> set ?best" by simp
  then have "0 < length ?best" by (rule length_pos_if_in_set)
  then have "tie_break c ?best mod length ?best < length ?best" by (rule mod_less_divisor)
  then have "?n \<in> set ?best" by (rule nth_mem)
  then have inq: "?n \<in> set q" and least: "\<forall>m\<in>set q. node_estimate ?n \<le> node_estimate m"
    by simp_all
  obtain ys zs where split: "q = ys @ ?n # zs" and first: "?n \<notin> set ys"
    using split_list_first [OF inq] by blast
  have "remove1 ?n (ys @ ?n # zs) = ys @ zs" using first by (simp add: remove1_append)
  then have "remove1 ?n q = ys @ zs" using split by simp
  then have "popBestNode c q = Some (?n, ys @ zs)"
    using assms by (simp add: popBestNode_def Let_def)
  then show ?thesis using split first least by blast
qed

text \<open>
  With a non-empty queue after the root node, \<open>run\<close> installs the node that
  \<open>popBestBoundNode\<close> returns and enters the loop from that state, with a null basis.
\<close>

lemma run_tree_search:
  assumes "nodequeue (root_phase c s) \<noteq> []"
  shows "\<exists>n ys zs s6. nodequeue (root_phase c s) = ys @ n # zs
      \<and> (\<forall>y\<in>set ys. node_lower_bound n < node_lower_bound y)
      \<and> (\<forall>z\<in>set zs. node_lower_bound n \<le> node_lower_bound z)
      \<and> popBestBoundNode (nodequeue (root_phase c s)) = Some (n, ys @ zs)
      \<and> install_first (root_phase c s) = Some s6
      \<and> search_nodes s6 = [n] \<and> nodequeue s6 = ys @ zs
      \<and> lp_iteration_limit s6 = lp_iteration_limit (root_phase c s)
      \<and> run k c s =
           (case run_loop k c None s6 of
              None \<Rightarrow> None
            | Some s7 \<Rightarrow> Some (printDisplayLine c (timer_stop c s7)))"
proof -
  let ?r = "root_phase c s"
  obtain n ys zs where b: "nodequeue ?r = ys @ n # zs"
      "\<forall>y\<in>set ys. node_lower_bound n < node_lower_bound y"
      "\<forall>z\<in>set zs. node_lower_bound n \<le> node_lower_bound z"
      "popBestBoundNode (nodequeue ?r) = Some (n, ys @ zs)"
    using pop_least_first [OF assms, of node_lower_bound] unfolding popBestBoundNode_def by blast
  obtain s6 where i: "install_first ?r = Some s6" "search_nodes s6 = [n]"
      "nodequeue s6 = ys @ zs" "lp_iteration_limit s6 = lp_iteration_limit ?r"
    using b(4) by (simp add: install_first_def Let_def printf_def installNode_def)
  have "run k c s =
           (case run_loop k c None s6 of
              None \<Rightarrow> None
            | Some s7 \<Rightarrow> Some (printDisplayLine c (timer_stop c s7)))"
    using assms i(1) by (simp add: run_def Let_def)
  then show ?thesis using b i by blast
qed

text \<open>
  Claim C1, as the code has it. Before the loop, \<open>run\<close> installs the node that
  \<open>popBestBoundNode\<close> returns, the queued node with minimum lower bound, the first
  inserted among ties, and the run loop starts from that state. Inside the run loop,
  which goes on to the loop over the queue after each plunge that leaves the domain
  feasible, each node installed from the non-empty queue is the one that \<open>popBestNode\<close>
  returns: a queued node with the least estimate. It need not have the minimum lower
  bound.
\<close>

theorem queue_node_selection:
  "(nodequeue (root_phase c s) \<noteq> [] \<longrightarrow>
      (\<exists>n ys zs s6. nodequeue (root_phase c s) = ys @ n # zs
          \<and> (\<forall>y\<in>set ys. node_lower_bound n < node_lower_bound y)
          \<and> (\<forall>z\<in>set zs. node_lower_bound n \<le> node_lower_bound z)
          \<and> popBestBoundNode (nodequeue (root_phase c s)) = Some (n, ys @ zs)
          \<and> install_first (root_phase c s) = Some s6
          \<and> search_nodes s6 = [n] \<and> nodequeue s6 = ys @ zs
          \<and> run k c s =
               (case run_loop k c None s6 of
                  None \<Rightarrow> None
                | Some s7 \<Rightarrow> Some (printDisplayLine c (timer_stop c s7)))))
   \<and> (hasNode u \<and> dive_phase k c u = Some u6 \<and> \<not> domain_infeasible u6 \<longrightarrow>
        run_loop (Suc k) c basis u =
          (case install_loop k c basis (pre_install c u6) of
             None \<Rightarrow> None
           | Some (s9, basis') \<Rightarrow> run_loop k c basis' s9))
   \<and> (nodequeue t \<noteq> [] \<longrightarrow>
      (\<exists>n ys zs. nodequeue t = ys @ n # zs \<and> n \<notin> set ys
          \<and> (\<forall>m\<in>set (nodequeue t). node_estimate n \<le> node_estimate m)
          \<and> popBestNode c (nodequeue t) = Some (n, ys @ zs)
          \<and> install_loop (Suc k) c basis t =
               (case install_next c basis n (ys @ zs) t of
                  Inl s' \<Rightarrow> install_loop k c basis s'
                | Inr r \<Rightarrow> Some r)))"
proof -
  have 1: "nodequeue (root_phase c s) \<noteq> [] \<longrightarrow>
      (\<exists>n ys zs s6. nodequeue (root_phase c s) = ys @ n # zs
          \<and> (\<forall>y\<in>set ys. node_lower_bound n < node_lower_bound y)
          \<and> (\<forall>z\<in>set zs. node_lower_bound n \<le> node_lower_bound z)
          \<and> popBestBoundNode (nodequeue (root_phase c s)) = Some (n, ys @ zs)
          \<and> install_first (root_phase c s) = Some s6
          \<and> search_nodes s6 = [n] \<and> nodequeue s6 = ys @ zs
          \<and> run k c s =
               (case run_loop k c None s6 of
                  None \<Rightarrow> None
                | Some s7 \<Rightarrow> Some (printDisplayLine c (timer_stop c s7))))"
  proof
    assume "nodequeue (root_phase c s) \<noteq> []"
    from run_tree_search [OF this, of k]
    show "\<exists>n ys zs s6. nodequeue (root_phase c s) = ys @ n # zs
          \<and> (\<forall>y\<in>set ys. node_lower_bound n < node_lower_bound y)
          \<and> (\<forall>z\<in>set zs. node_lower_bound n \<le> node_lower_bound z)
          \<and> popBestBoundNode (nodequeue (root_phase c s)) = Some (n, ys @ zs)
          \<and> install_first (root_phase c s) = Some s6
          \<and> search_nodes s6 = [n] \<and> nodequeue s6 = ys @ zs
          \<and> run k c s =
               (case run_loop k c None s6 of
                  None \<Rightarrow> None
                | Some s7 \<Rightarrow> Some (printDisplayLine c (timer_stop c s7)))"
      by blast
  qed
  have 2: "hasNode u \<and> dive_phase k c u = Some u6 \<and> \<not> domain_infeasible u6 \<longrightarrow>
        run_loop (Suc k) c basis u =
          (case install_loop k c basis (pre_install c u6) of
             None \<Rightarrow> None
           | Some (s9, basis') \<Rightarrow> run_loop k c basis' s9)"
    using run_loop_continue [of u k c u6 basis] by blast
  have 3: "nodequeue t \<noteq> [] \<longrightarrow>
      (\<exists>n ys zs. nodequeue t = ys @ n # zs \<and> n \<notin> set ys
          \<and> (\<forall>m\<in>set (nodequeue t). node_estimate n \<le> node_estimate m)
          \<and> popBestNode c (nodequeue t) = Some (n, ys @ zs)
          \<and> install_loop (Suc k) c basis t =
               (case install_next c basis n (ys @ zs) t of
                  Inl s' \<Rightarrow> install_loop k c basis s'
                | Inr r \<Rightarrow> Some r))"
  proof
    assume "nodequeue t \<noteq> []"
    then obtain m us vs where e: "nodequeue t = us @ m # vs" "m \<notin> set us"
        "\<forall>x\<in>set (nodequeue t). node_estimate m \<le> node_estimate x"
        "popBestNode c (nodequeue t) = Some (m, us @ vs)"
      using popBestNode_least [of "nodequeue t" c] by blast
    have "install_loop (Suc k) c basis t =
               (case install_next c basis m (us @ vs) t of
                  Inl s' \<Rightarrow> install_loop k c basis s'
                | Inr r \<Rightarrow> Some r)"
      using e(4) by simp
    then show "\<exists>n ys zs. nodequeue t = ys @ n # zs \<and> n \<notin> set ys
          \<and> (\<forall>m\<in>set (nodequeue t). node_estimate n \<le> node_estimate m)
          \<and> popBestNode c (nodequeue t) = Some (n, ys @ zs)
          \<and> install_loop (Suc k) c basis t =
               (case install_next c basis n (ys @ zs) t of
                  Inl s' \<Rightarrow> install_loop k c basis s'
                | Inr r \<Rightarrow> Some r)"
      using e by blast
  qed
  show ?thesis using 1 2 3 by (intro conjI)
qed

text \<open>
  A queue of two nodes: before the loop \<open>run\<close> would take \<open>node_a\<close>, of the best bound;
  the loop takes \<open>node_b\<close>, of the best estimate.
\<close>

theorem queue_node_selection_witness:
  "nodequeue (root_phase toy (toy_state [node_a, node_b] [])) \<noteq> []
   \<and> popBestBoundNode (nodequeue (root_phase toy (toy_state [node_a, node_b] []))) = Some (node_a, [node_b])
   \<and> map_option search_nodes (install_first (root_phase toy (toy_state [node_a, node_b] []))) = Some [node_a]
   \<and> run 9 toy (toy_state [node_a, node_b] []) \<noteq> None
   \<and> nodequeue (toy_state [node_a, node_b] []) \<noteq> []
   \<and> popBestNode toy (nodequeue (toy_state [node_a, node_b] [])) = Some (node_b, [node_a])
   \<and> install_loop 1 toy None (toy_state [node_a, node_b] []) =
        (case install_next toy None node_b [node_a] (toy_state [node_a, node_b] []) of
           Inl s' \<Rightarrow> install_loop 0 toy None s'
         | Inr r \<Rightarrow> Some r)
   \<and> hasNode (toy_state [node_a, node_b] [node_r])
   \<and> \<not> domain_infeasible (the (dive_phase 2 toy (toy_state [node_a, node_b] [node_r])))
   \<and> run_loop (Suc 2) toy None (toy_state [node_a, node_b] [node_r]) =
        (case install_loop 2 toy None
                (pre_install toy (the (dive_phase 2 toy (toy_state [node_a, node_b] [node_r])))) of
           None \<Rightarrow> None
         | Some (s9, basis') \<Rightarrow> run_loop 2 toy basis' s9)"
proof -
  let ?s = "toy_state [node_a, node_b] []"
  let ?u = "toy_state [node_a, node_b] [node_r]"
  have h: "hasNode ?u" by code_simp
  have d: "dive_phase 2 toy ?u = Some (the (dive_phase 2 toy ?u))" by code_simp
  have i: "\<not> domain_infeasible (the (dive_phase 2 toy ?u))" by code_simp
  have l: "run_loop (Suc 2) toy None ?u =
        (case install_loop 2 toy None (pre_install toy (the (dive_phase 2 toy ?u))) of
           None \<Rightarrow> None
         | Some (s9, basis') \<Rightarrow> run_loop 2 toy basis' s9)"
    using queue_node_selection [of toy ?s 2 ?u "the (dive_phase 2 toy ?u)" None ?s] h d i
    by blast
  have q0: "nodequeue (root_phase toy ?s) \<noteq> []" by code_simp
  have b: "popBestBoundNode (nodequeue (root_phase toy ?s)) = Some (node_a, [node_b])" by code_simp
  have f: "map_option search_nodes (install_first (root_phase toy ?s)) = Some [node_a]" by code_simp
  have r: "run 9 toy ?s \<noteq> None" by code_simp
  have q: "nodequeue ?s \<noteq> []" by code_simp
  have e: "popBestNode toy (nodequeue ?s) = Some (node_b, [node_a])" by code_simp
  from queue_node_selection [of toy ?s 0 ?s ?s None ?s] q
  obtain n ys zs where w: "popBestNode toy (nodequeue ?s) = Some (n, ys @ zs)"
    "install_loop (Suc 0) toy None ?s =
       (case install_next toy None n (ys @ zs) ?s of
          Inl s' \<Rightarrow> install_loop 0 toy None s'
        | Inr r \<Rightarrow> Some r)"
    by blast
  have "n = node_b" and "ys @ zs = [node_a]" using w(1) e by simp_all
  then have "install_loop 1 toy None ?s =
       (case install_next toy None node_b [node_a] ?s of
          Inl s' \<Rightarrow> install_loop 0 toy None s'
        | Inr r \<Rightarrow> Some r)"
    using w(2) by (simp only: One_nat_def)
  then show ?thesis using q0 b f r q e h i l by blast
qed

text \<open>
  Claim C1 as stated fails: from the queue \<open>[node_a, node_b]\<close> the loop installs
  \<open>node_b\<close> (lower bound 2), although \<open>node_a\<close> (lower bound 1) is the best-bound node;
  in the whole run the node of reference 9 is dived before the node of reference 5.
  No two nodes here have the same estimate.
\<close>

theorem installed_node_not_best_bound:
  "map_option (search_nodes \<circ> fst) (install_loop 1 toy None (toy_state [node_a, node_b] []))
     = Some [node_b]
   \<and> popBestBoundNode [node_a, node_b] = Some (node_a, [node_b])
   \<and> node_lower_bound node_a < node_lower_bound node_b
   \<and> node_estimate node_b < node_estimate node_a
   \<and> map_option dives (run_loop 9 toy None (toy_state [node_a, node_b] [node_r]))
     = Some [([0], Some 10), ([9], Some 10), ([5], Some 10)]"
proof -
  have 1: "map_option (search_nodes \<circ> fst) (install_loop 1 toy None (toy_state [node_a, node_b] []))
     = Some [node_b]" by code_simp
  have 2: "popBestBoundNode [node_a, node_b] = Some (node_a, [node_b])" by code_simp
  have 3: "node_lower_bound node_a < node_lower_bound node_b" by code_simp
  have 4: "node_estimate node_b < node_estimate node_a" by code_simp
  have 5: "map_option dives (run_loop 9 toy None (toy_state [node_a, node_b] [node_r]))
     = Some [([0], Some 10), ([9], Some 10), ([5], Some 10)]" by code_simp
  show ?thesis using 1 2 3 4 5 by blast
qed

subsection \<open>The root node\<close>

text \<open>
  Claim C9. If the queue is empty after the root node has been evaluated, \<open>run\<close>
  prints that the model was solved in the root node, stops the clock and returns,
  whatever the fuel: the loop is not entered. The search is not constructed (its
  nodes are untouched), and the result depends on no collaborator but the timer, the
  setup and the root evaluation, so no other node is evaluated.
\<close>

theorem root_solved_returns:
  assumes "nodequeue (root_phase c s) = []"
  shows "run k c s = Some (timer_stop c (printf SolvedInRootNode (root_phase c s)))
    \<and> printed (printf SolvedInRootNode (root_phase c s)) = printed (root_phase c s) @ [SolvedInRootNode]
    \<and> search_nodes (printf SolvedInRootNode (root_phase c s)) = search_nodes (root_phase c s)
    \<and> (\<forall>k' c'. root_phase c' s = root_phase c s \<and> timer_stop c' = timer_stop c
          \<longrightarrow> run k' c' s = run k c s)"
  using assms by (simp add: run_def Let_def printf_def)

text \<open>With an empty queue after the root, \<open>run\<close> returns without any fuel.\<close>

theorem root_solved_returns_witness:
  "nodequeue (root_phase toy (toy_state [] [])) = []
   \<and> run 0 toy (toy_state [] []) = Some ((toy_state [] [])\<lparr>printed := [SolvedInRootNode]\<rparr>)"
proof -
  let ?s = "toy_state [] []"
  have q: "nodequeue (root_phase toy ?s) = []" by code_simp
  have "run 0 toy ?s = Some (timer_stop toy (printf SolvedInRootNode (root_phase toy ?s)))"
    using root_solved_returns [OF q, of 0] by blast
  moreover have "timer_stop toy (printf SolvedInRootNode (root_phase toy ?s))
      = ?s\<lparr>printed := [SolvedInRootNode]\<rparr>" by code_simp
  ultimately show ?thesis using q by simp
qed

subsection \<open>The basis\<close>

text \<open>
  Claim C10. For a node installed from the queue that was not pruned, after
  separation: when the status of the relaxation is \<open>Error\<close> or \<open>NotSet\<close>, \<open>storeBasis\<close>
  is not called (the result is the same whatever \<open>storeBasis\<close> would do), the state
  stays as separation left it and the basis handle becomes the basis stored before;
  otherwise \<open>storeBasis\<close> is called and the handle becomes the basis it stored. The
  loop over the queue ends with this state and handle.
\<close>

theorem basis_stored_unless_failed:
  assumes "\<not> currentNodePruned c (evaluateNode c s)"
  shows "(lp_status (separate c (evaluateNode c s)) \<in> {Error, NotSet} \<longrightarrow>
           (\<forall>f. evaluate_restored (c\<lparr>storeBasis := f\<rparr>) s =
              Inr (separate c (evaluateNode c s), lp_stored_basis (separate c (evaluateNode c s)))))
       \<and> (lp_status (separate c (evaluateNode c s)) \<notin> {Error, NotSet} \<longrightarrow>
           evaluate_restored c s =
              Inr (storeBasis c (separate c (evaluateNode c s)),
                   lp_stored_basis (storeBasis c (separate c (evaluateNode c s)))))
       \<and> (popBestNode c (nodequeue t) = Some (n, q')
            \<and> restore_basis c basis (installNode n (t\<lparr>nodequeue := q'\<rparr>)) = s \<longrightarrow>
           install_loop (Suc k) c basis t =
             (case evaluate_restored c s of Inl s' \<Rightarrow> None | Inr r \<Rightarrow> Some r))"
  using assms by (auto simp add: evaluate_restored_def keep_basis_def Let_def install_next_def)

text \<open>A node under status \<open>Error\<close> keeps the stored basis 7; under \<open>Optimal\<close> the basis of node 5 is stored.\<close>

theorem basis_stored_unless_failed_witness:
  "\<not> currentNodePruned toy (evaluateNode toy ((toy_state [] [node_a])\<lparr>lp_status := Error, lp_stored_basis := Some [7]\<rparr>))
   \<and> lp_status (separate toy (evaluateNode toy ((toy_state [] [node_a])\<lparr>lp_status := Error, lp_stored_basis := Some [7]\<rparr>))) = Error
   \<and> evaluate_restored toy ((toy_state [] [node_a])\<lparr>lp_status := Error, lp_stored_basis := Some [7]\<rparr>)
       = Inr ((toy_state [] [node_a])\<lparr>lp_status := Error, lp_stored_basis := Some [7]\<rparr>, Some [7])
   \<and> \<not> currentNodePruned toy (evaluateNode toy ((toy_state [] [node_a])\<lparr>lp_stored_basis := Some [7]\<rparr>))
   \<and> lp_status (separate toy (evaluateNode toy ((toy_state [] [node_a])\<lparr>lp_stored_basis := Some [7]\<rparr>))) = Optimal
   \<and> evaluate_restored toy ((toy_state [] [node_a])\<lparr>lp_stored_basis := Some [7]\<rparr>)
       = Inr ((toy_state [] [node_a])\<lparr>lp_stored_basis := Some [5]\<rparr>, Some [5])"
proof -
  let ?e = "(toy_state [] [node_a])\<lparr>lp_status := Error, lp_stored_basis := Some [7]\<rparr>"
  let ?o = "(toy_state [] [node_a])\<lparr>lp_stored_basis := Some [7]\<rparr>"
  have pe: "\<not> currentNodePruned toy (evaluateNode toy ?e)" by code_simp
  have se: "lp_status (separate toy (evaluateNode toy ?e)) = Error" by code_simp
  have po: "\<not> currentNodePruned toy (evaluateNode toy ?o)" by code_simp
  have so: "lp_status (separate toy (evaluateNode toy ?o)) = Optimal" by code_simp
  have "lp_status (separate toy (evaluateNode toy ?e)) \<in> {Error, NotSet}" using se by simp
  then have "\<forall>f. evaluate_restored (toy\<lparr>storeBasis := f\<rparr>) ?e =
      Inr (separate toy (evaluateNode toy ?e), lp_stored_basis (separate toy (evaluateNode toy ?e)))"
    using basis_stored_unless_failed [OF pe, of ?e node_a "[]" None 0] by blast
  then have "evaluate_restored (toy\<lparr>storeBasis := storeBasis toy\<rparr>) ?e =
      Inr (separate toy (evaluateNode toy ?e), lp_stored_basis (separate toy (evaluateNode toy ?e)))"
    by (rule spec)
  moreover have "toy\<lparr>storeBasis := storeBasis toy\<rparr> = toy" by simp
  moreover have "separate toy (evaluateNode toy ?e) = ?e" by code_simp
  moreover have "lp_stored_basis ?e = Some [7]" by code_simp
  ultimately have 1: "evaluate_restored toy ?e = Inr (?e, Some [7])" by (simp only:)
  have "lp_status (separate toy (evaluateNode toy ?o)) \<notin> {Error, NotSet}" using so by simp
  then have "evaluate_restored toy ?o =
      Inr (storeBasis toy (separate toy (evaluateNode toy ?o)),
           lp_stored_basis (storeBasis toy (separate toy (evaluateNode toy ?o))))"
    using basis_stored_unless_failed [OF po, of ?o node_a "[]" None 0] by blast
  moreover have "storeBasis toy (separate toy (evaluateNode toy ?o))
      = (toy_state [] [node_a])\<lparr>lp_stored_basis := Some [5]\<rparr>" by code_simp
  moreover have "lp_stored_basis ((toy_state [] [node_a])\<lparr>lp_stored_basis := Some [5]\<rparr>) = Some [5]"
    by simp
  ultimately have 2: "evaluate_restored toy ?o
      = Inr ((toy_state [] [node_a])\<lparr>lp_stored_basis := Some [5]\<rparr>, Some [5])" by (simp only:)
  show ?thesis using pe se po so 1 2 by blast
qed

text \<open>
  How the loop over the queue leaves the basis handle: unchanged, with the queue
  empty, or set at line 167 to the basis stored in the relaxation after a node that
  was not pruned.
\<close>

lemma install_loop_handle:
  "install_loop k c basis s = Some (s', b') \<Longrightarrow>
     (nodequeue s' = [] \<and> b' = basis)
     \<or> (\<exists>t. \<not> currentNodePruned c (evaluateNode c t)
            \<and> (s', b') = keep_basis c (separate c (evaluateNode c t))
            \<and> b' = lp_stored_basis s')"
proof (induction k arbitrary: s)
  case 0
  then show ?case by simp
next
  case (Suc k)
  show ?case
  proof (cases "popBestNode c (nodequeue s)")
    case None
    then have "nodequeue s = []" by (simp add: popBestNode_None)
    moreover have "s' = s \<and> b' = basis" using Suc.prems None by simp
    ultimately show ?thesis by simp
  next
    case (Some p)
    obtain n q' where p: "p = (n, q')" by (cases p)
    let ?t = "restore_basis c basis (installNode n (s\<lparr>nodequeue := q'\<rparr>))"
    show ?thesis
    proof (cases "install_next c basis n q' s")
      case (Inl t)
      then have "install_loop k c basis t = Some (s', b')" using Suc.prems Some p by simp
      then show ?thesis by (rule Suc.IH)
    next
      case (Inr r)
      then have r: "r = (s', b')" using Suc.prems Some p by simp
      have e: "evaluate_restored c ?t = Inr (s', b')"
        using Inr r by (simp add: install_next_def)
      then have np: "\<not> currentNodePruned c (evaluateNode c ?t)"
        by (auto simp: evaluate_restored_def Let_def split: if_splits)
      then have k: "(s', b') = keep_basis c (separate c (evaluateNode c ?t))"
        using e by (simp add: evaluate_restored_def Let_def)
      then have "b' = lp_stored_basis s'"
        by (auto simp: keep_basis_def Let_def split: if_splits)
      then show ?thesis using np k by blast
    qed
  qed
qed

text \<open>
  Claim C7, as the code has it. When a node is installed from the queue, the
  orchestrator hands its basis handle to the relaxation (\<open>setStoredBasis\<close>, then
  \<open>recoverBasis\<close>) whenever the handle is not null, whichever node is installed; with a
  null handle neither is called. No test relates the node to the basis. The handle
  is null when \<open>run\<close> enters the run loop, and the run loop passes it to the loop over
  the queue and takes it back from there. That loop returns the handle unchanged
  when the queue is empty, keeps it for the next node when the popped node is
  pruned, and when a popped node is not pruned ends with the handle set to the basis
  stored in the relaxation (line 167).
\<close>

theorem stored_basis_reused_whenever_present:
  "install_next c (Some b) n q' s =
     evaluate_restored c (recoverBasis c
       (s\<lparr>nodequeue := q', search_nodes := n # search_nodes s, lp_stored_basis := Some b\<rparr>))
   \<and> install_next c None n q' s =
     evaluate_restored c (s\<lparr>nodequeue := q', search_nodes := n # search_nodes s\<rparr>)
   \<and> (nodequeue s = [] \<longrightarrow> install_loop (Suc k) c basis s = Some (s, basis))
   \<and> (popBestNode c (nodequeue s) = Some (n, q') \<longrightarrow>
        install_loop (Suc k) c basis s =
          (case install_next c basis n q' s of
             Inl s' \<Rightarrow> install_loop k c basis s'
           | Inr r \<Rightarrow> Some r))
   \<and> (install_next c basis n q' s = Inr (t, b1) \<longrightarrow>
        b1 = lp_stored_basis t
        \<and> \<not> currentNodePruned c
             (evaluateNode c (restore_basis c basis (installNode n (s\<lparr>nodequeue := q'\<rparr>)))))
   \<and> (\<not> currentNodePruned c
             (evaluateNode c (restore_basis c basis (installNode n (s\<lparr>nodequeue := q'\<rparr>)))) \<longrightarrow>
        (\<exists>t. install_next c basis n q' s = Inr (t, lp_stored_basis t)))
   \<and> (install_loop k c basis s = Some (s', b') \<longrightarrow>
        (nodequeue s' = [] \<and> b' = basis)
        \<or> (\<exists>t. \<not> currentNodePruned c (evaluateNode c t)
               \<and> (s', b') = keep_basis c (separate c (evaluateNode c t))
               \<and> b' = lp_stored_basis s'))
   \<and> (nodequeue (root_phase c s0) \<noteq> [] \<longrightarrow>
        (\<exists>s6. install_first (root_phase c s0) = Some s6
           \<and> run k c s0 =
               (case run_loop k c None s6 of
                  None \<Rightarrow> None
                | Some s7 \<Rightarrow> Some (printDisplayLine c (timer_stop c s7)))))
   \<and> (hasNode u \<and> dive_phase k c u = Some u6 \<and> \<not> domain_infeasible u6 \<longrightarrow>
        run_loop (Suc k) c basis u =
          (case install_loop k c basis (pre_install c u6) of
             None \<Rightarrow> None
           | Some (s9, basis') \<Rightarrow> run_loop k c basis' s9))"
proof -
  have 1: "install_next c (Some b) n q' s =
     evaluate_restored c (recoverBasis c
       (s\<lparr>nodequeue := q', search_nodes := n # search_nodes s, lp_stored_basis := Some b\<rparr>))"
    by (simp add: install_next_def restore_basis_def setStoredBasis_def installNode_def)
  have 2: "install_next c None n q' s =
     evaluate_restored c (s\<lparr>nodequeue := q', search_nodes := n # search_nodes s\<rparr>)"
    by (simp add: install_next_def restore_basis_def installNode_def)
  have 3: "nodequeue s = [] \<longrightarrow> install_loop (Suc k) c basis s = Some (s, basis)"
    by (simp add: popBestNode_def)
  have 4: "popBestNode c (nodequeue s) = Some (n, q') \<longrightarrow>
        install_loop (Suc k) c basis s =
          (case install_next c basis n q' s of
             Inl s' \<Rightarrow> install_loop k c basis s'
           | Inr r \<Rightarrow> Some r)"
    by simp
  have 5: "install_next c basis n q' s = Inr (t, b1) \<longrightarrow>
        b1 = lp_stored_basis t
        \<and> \<not> currentNodePruned c
             (evaluateNode c (restore_basis c basis (installNode n (s\<lparr>nodequeue := q'\<rparr>))))"
    by (auto simp: install_next_def evaluate_restored_def keep_basis_def Let_def split: if_splits)
  have conv: "\<not> currentNodePruned c
             (evaluateNode c (restore_basis c basis (installNode n (s\<lparr>nodequeue := q'\<rparr>)))) \<longrightarrow>
        (\<exists>t. install_next c basis n q' s = Inr (t, lp_stored_basis t))"
    by (simp add: install_next_def evaluate_restored_def keep_basis_def Let_def)
  have 6: "install_loop k c basis s = Some (s', b') \<longrightarrow>
        (nodequeue s' = [] \<and> b' = basis)
        \<or> (\<exists>t. \<not> currentNodePruned c (evaluateNode c t)
               \<and> (s', b') = keep_basis c (separate c (evaluateNode c t))
               \<and> b' = lp_stored_basis s')"
    using install_loop_handle [of k c basis s s' b'] by blast
  have 7: "nodequeue (root_phase c s0) \<noteq> [] \<longrightarrow>
        (\<exists>s6. install_first (root_phase c s0) = Some s6
           \<and> run k c s0 =
               (case run_loop k c None s6 of
                  None \<Rightarrow> None
                | Some s7 \<Rightarrow> Some (printDisplayLine c (timer_stop c s7))))"
    using run_tree_search [of c s0 k] by blast
  have 8: "hasNode u \<and> dive_phase k c u = Some u6 \<and> \<not> domain_infeasible u6 \<longrightarrow>
        run_loop (Suc k) c basis u =
          (case install_loop k c basis (pre_install c u6) of
             None \<Rightarrow> None
           | Some (s9, basis') \<Rightarrow> run_loop k c basis' s9)"
    using run_loop_continue [of u k c u6 basis] by blast
  show ?thesis using 1 2 3 4 5 conv 6 7 8 by (intro conjI)
qed

text \<open>
  With an empty queue the null handle comes back null; with the handle holding
  basis 9, installing \<open>node_a\<close> recovers basis 9 and ends with the handle on basis 5.
\<close>

theorem stored_basis_reused_whenever_present_witness:
  "nodequeue (toy_state [] []) = []
   \<and> install_loop 1 toy None (toy_state [] []) = Some (toy_state [] [], None)
   \<and> popBestNode toy (nodequeue (toy_state [node_a] [])) = Some (node_a, [])
   \<and> install_loop 1 toy (Some [9]) (toy_state [node_a] []) =
      Some ((toy_state [] [node_a])\<lparr>lp_stored_basis := Some [5], recovered := [([5], Some [9])]\<rparr>, Some [5])
   \<and> nodequeue (root_phase toy (toy_state [node_a] [])) \<noteq> []
   \<and> run 9 toy (toy_state [node_a] []) =
        (case run_loop 9 toy None (the (install_first (root_phase toy (toy_state [node_a] [])))) of
           None \<Rightarrow> None
         | Some s7 \<Rightarrow> Some (printDisplayLine toy (timer_stop toy s7)))"
proof -
  let ?e = "toy_state [] []"
  have q0: "nodequeue (root_phase toy (toy_state [node_a] [])) \<noteq> []" by code_simp
  then obtain s6 where s6: "install_first (root_phase toy (toy_state [node_a] [])) = Some s6"
      "run 9 toy (toy_state [node_a] []) =
        (case run_loop 9 toy None s6 of
           None \<Rightarrow> None
         | Some s7 \<Rightarrow> Some (printDisplayLine toy (timer_stop toy s7)))"
    using stored_basis_reused_whenever_present [of toy "[9]" node_a "[]" ?e 9 None ?e None ?e None "toy_state [node_a] []" ?e ?e]
    by blast
  have 3: "run 9 toy (toy_state [node_a] []) =
        (case run_loop 9 toy None (the (install_first (root_phase toy (toy_state [node_a] [])))) of
           None \<Rightarrow> None
         | Some s7 \<Rightarrow> Some (printDisplayLine toy (timer_stop toy s7)))"
    using s6 by simp
  let ?s = "toy_state [node_a] []"
  have q: "nodequeue ?e = []" by code_simp
  have 1: "install_loop 1 toy None ?e = Some (?e, None)"
    using stored_basis_reused_whenever_present [of toy "[9]" node_a "[]" ?e 0 None ?e None ?e None ?e ?e ?e] q
    by (simp only: One_nat_def)
  have p: "popBestNode toy (nodequeue ?s) = Some (node_a, [])" by code_simp
  have "install_loop (Suc 0) toy (Some [9]) ?s =
          (case install_next toy (Some [9]) node_a [] ?s of
             Inl s' \<Rightarrow> install_loop 0 toy (Some [9]) s'
           | Inr r \<Rightarrow> Some r)"
    using stored_basis_reused_whenever_present [of toy "[9]" node_a "[]" ?s 0 "Some [9]" ?s None ?s None ?s ?s ?s] p
    by blast
  moreover have "install_next toy (Some [9]) node_a [] ?s =
      Inr ((toy_state [] [node_a])\<lparr>lp_stored_basis := Some [5], recovered := [([5], Some [9])]\<rparr>, Some [5])"
    by code_simp
  ultimately have 2: "install_loop 1 toy (Some [9]) ?s =
      Some ((toy_state [] [node_a])\<lparr>lp_stored_basis := Some [5], recovered := [([5], Some [9])]\<rparr>, Some [5])"
    by simp
  show ?thesis using q 1 p 2 q0 3 by blast
qed

text \<open>
  Claim C7 as stated fails: in this run the basis stored at the node of reference 9
  (depth 7) is recovered when the node of reference 5 (depth 1) is installed; the two
  are neither parent and child nor siblings.
\<close>

theorem basis_reused_for_unrelated_node:
  "map_option recovered (run_loop 9 toy None (toy_state [node_a, node_b] [node_r]))
     = Some [([5], Some [9])]
   \<and> domchg_ref node_a = 5 \<and> node_depth node_a = 1
   \<and> domchg_ref node_b = 9 \<and> node_depth node_b = 7"
proof -
  have 1: "map_option recovered (run_loop 9 toy None (toy_state [node_a, node_b] [node_r]))
     = Some [([5], Some [9])]" by code_simp
  have 2: "domchg_ref node_a = 5 \<and> node_depth node_a = 1
   \<and> domchg_ref node_b = 9 \<and> node_depth node_b = 7" by code_simp
  show ?thesis using 1 2 by blast
qed

subsection \<open>How the search loop ends\<close>

lemma run_loop_exit:
  "run_loop k c basis s = Some r \<Longrightarrow>
     \<not> hasNode r \<or> (domain_infeasible r \<and> nodequeue r = [] \<and> pruned_treeweight r = 1)"
proof (induction k arbitrary: basis s)
  case 0
  then show ?case by simp
next
  case (Suc k)
  show ?case
  proof (cases "hasNode s")
    case False
    then have "r = s" using Suc.prems by simp
    then show ?thesis using False by simp
  next
    case True
    show ?thesis
    proof (cases "dive_phase k c s")
      case None
      then show ?thesis using Suc.prems True by simp
    next
      case (Some s6)
      show ?thesis
      proof (cases "domain_infeasible s6")
        case inf: True
        then have "r = close_tree s6" using Suc.prems True Some by simp
        then show ?thesis using inf by (simp add: close_tree_def)
      next
        case feas: False
        show ?thesis
        proof (cases "install_loop k c basis (pre_install c s6)")
          case None
          then show ?thesis using Suc.prems True Some feas by simp
        next
          case inst: (Some p)
          obtain s9 b' where p: "p = (s9, b')" by (cases p)
          then have "run_loop k c b' s9 = Some r" using Suc.prems True Some feas inst by simp
          then show ?thesis by (rule Suc.IH)
        qed
      qed
    qed
  qed
qed

text \<open>
  Claim C8, as the code has it. The run loop queries no stop signal. It ends only at
  an outer-loop boundary where the search holds no node, or when global propagation
  has marked the domain infeasible (queue cleared, tree weight 1). At a boundary where
  the search holds a node and the domain stays feasible after the plunge, the loop
  always goes on to install nodes from the queue.
\<close>

theorem search_loop_exits:
  "(run_loop k c basis s = Some r \<longrightarrow>
      \<not> hasNode r \<or> (domain_infeasible r \<and> nodequeue r = [] \<and> pruned_treeweight r = 1))
   \<and> (hasNode s \<and> dive_phase k c s = Some s6 \<and> \<not> domain_infeasible s6 \<longrightarrow>
        run_loop (Suc k) c basis s =
          (case install_loop k c basis (pre_install c s6) of
             None \<Rightarrow> None
           | Some (s9, basis') \<Rightarrow> run_loop k c basis' s9))"
  using run_loop_exit [of k c basis s r] run_loop_continue [of s k c s6 basis] by blast

text \<open>A run that ends because the search holds no node.\<close>

theorem search_loop_exits_witness:
  "run_loop 9 toy None (toy_state [node_a, node_b] [node_r])
     = Some (the (run_loop 9 toy None (toy_state [node_a, node_b] [node_r])))
   \<and> \<not> hasNode (the (run_loop 9 toy None (toy_state [node_a, node_b] [node_r])))
   \<and> \<not> domain_infeasible (the (run_loop 9 toy None (toy_state [node_a, node_b] [node_r])))"
proof -
  let ?s = "toy_state [node_a, node_b] [node_r]"
  let ?r = "the (run_loop 9 toy None ?s)"
  have e: "run_loop 9 toy None ?s = Some ?r" by code_simp
  have f: "\<not> domain_infeasible ?r" by code_simp
  have "\<not> hasNode ?r \<or> (domain_infeasible ?r \<and> nodequeue ?r = [] \<and> pruned_treeweight ?r = 1)"
    using search_loop_exits [of 9 toy None ?s ?r ?s] e by blast
  then have "\<not> hasNode ?r" using f by blast
  then show ?thesis using e f by blast
qed

text \<open>
  Claim C8 as stated fails: the stop flag is raised from the start, the search holds
  a node and the queue two more, and the loop still runs three plunges, installing
  both queued nodes.
\<close>

theorem stop_signal_ignored:
  "should_stop (toy_state [node_a, node_b] [node_r])
   \<and> hasNode (toy_state [node_a, node_b] [node_r])
   \<and> nodequeue (toy_state [node_a, node_b] [node_r]) = [node_a, node_b]
   \<and> map_option should_stop (run_loop 9 toy None (toy_state [node_a, node_b] [node_r])) = Some True
   \<and> map_option num_leaves (run_loop 9 toy None (toy_state [node_a, node_b] [node_r])) = Some 3
   \<and> map_option (map fst \<circ> dives) (run_loop 9 toy None (toy_state [node_a, node_b] [node_r]))
       = Some [[0], [9], [5]]"
proof -
  let ?s = "toy_state [node_a, node_b] [node_r]"
  have 1: "should_stop ?s" by code_simp
  have 2: "hasNode ?s" by code_simp
  have 3: "nodequeue ?s = [node_a, node_b]" by code_simp
  have 4: "map_option should_stop (run_loop 9 toy None ?s) = Some True" by code_simp
  have 5: "map_option num_leaves (run_loop 9 toy None ?s) = Some 3" by code_simp
  have 6: "map_option (map fst \<circ> dives) (run_loop 9 toy None ?s) = Some [[0], [9], [5]]"
    by code_simp
  show ?thesis using 1 2 3 4 5 6 by blast
qed

subsection \<open>The iteration limit\<close>

lemma unat_max_one: "unat (max 1 (n :: 64 word)) = max 1 (unat n)"
proof (cases "n = 0")
  case True
  then show ?thesis by simp
next
  case False
  then have "unat n \<noteq> 0" by (simp add: unat_eq_0)
  then have "1 \<le> unat n" by simp
  then have "(1 :: 64 word) \<le> n" by (simp add: word_le_nat_alt)
  then show ?thesis using \<open>1 \<le> unat n\<close> by (simp add: max_def)
qed

lemma dive_iteration_limit_floor:
  assumes "exact_range (lp_num_iterations s) (num_nodes s)"
  shows "dive_iteration_limit c s =
     10 * \<lfloor>real (unat (lp_num_iterations s)) / real (max 1 (unat (num_nodes s)))\<rfloor>"
proof -
  have "dive_iteration_limit c s =
      10 * int (unat (lp_num_iterations s) div unat (max 1 (num_nodes s)))"
    using assms by (simp only: dive_iteration_limit_def if_True)
  then show ?thesis by (simp only: unat_max_one floor_divide_of_nat_eq)
qed

lemma limit_None_eq: "lp_iteration_limit s = None \<Longrightarrow> s\<lparr>lp_iteration_limit := None\<rparr> = s"
proof -
  assume "lp_iteration_limit s = None"
  then have "s\<lparr>lp_iteration_limit := None\<rparr> = s\<lparr>lp_iteration_limit := lp_iteration_limit s\<rparr>"
    by simp
  then show ?thesis by simp
qed

lemma popBestNode_uncapped: "popBestNode (uncapped c) q = popBestNode c q"
  by (simp add: popBestNode_def uncapped_def)

lemma install_loop_uncapped:
  assumes r: "\<forall>t. lp_iteration_limit (recoverBasis c t) = lp_iteration_limit t"
    and e: "\<forall>t. lp_iteration_limit (evaluateNode c t) = lp_iteration_limit t"
    and b: "\<forall>t. lp_iteration_limit (snd (backtrack c t)) = lp_iteration_limit t"
    and f: "\<forall>t. lp_iteration_limit (flushStatistics c t) = lp_iteration_limit t"
  shows "lp_iteration_limit s = None \<Longrightarrow>
     install_loop k (uncapped c) basis s = install_loop k c basis s"
proof (induction k arbitrary: s)
  case 0
  show ?case by simp
next
  case (Suc k)
  show ?case
  proof (cases "popBestNode c (nodequeue s)")
    case None
    then show ?thesis by (simp add: popBestNode_uncapped)
  next
    case (Some p)
    obtain n q' where p: "p = (n, q')" by (cases p)
    let ?s2 = "restore_basis c basis (installNode n (s\<lparr>nodequeue := q'\<rparr>))"
    have l2: "lp_iteration_limit ?s2 = None"
      using Suc.prems r
      by (cases basis) (simp_all add: restore_basis_def installNode_def setStoredBasis_def)
    have same: "restore_basis (uncapped c) basis = restore_basis c basis"
      by (rule ext) (simp add: restore_basis_def uncapped_def split: option.splits)
    have ev: "evaluateNode (uncapped c) ?s2 = evaluateNode c ?s2"
      using l2 by (simp add: uncapped_def limit_None_eq)
    have pu: "prune_update (uncapped c) = prune_update c"
      by (rule ext) (simp add: prune_update_def uncapped_def)
    have kb: "keep_basis (uncapped c) = keep_basis c"
      by (rule ext) (simp add: keep_basis_def uncapped_def)
    have sp: "separate (uncapped c) = separate c"
      and cp: "currentNodePruned (uncapped c) = currentNodePruned c"
      by (simp_all add: uncapped_def)
    have er: "evaluate_restored (uncapped c) ?s2 = evaluate_restored c ?s2"
      by (simp only: evaluate_restored_def ev pu kb sp cp)
    have nx: "install_next (uncapped c) basis n q' s = install_next c basis n q' s"
      by (simp only: install_next_def same er)
    show ?thesis
    proof (cases "install_next c basis n q' s")
      case (Inl t)
      then have "currentNodePruned c (evaluateNode c ?s2)" and t: "t = prune_update c (evaluateNode c ?s2)"
        by (auto simp: install_next_def evaluate_restored_def Let_def split: if_splits)
      have "lp_iteration_limit t = None"
        using l2 e b f
        by (simp add: t prune_update_def Let_def update_lower_bound_def)
      then have "install_loop k (uncapped c) basis t = install_loop k c basis t"
        by (rule Suc.IH)
      then show ?thesis using Some p nx Inl by (simp add: popBestNode_uncapped)
    next
      case (Inr x)
      then show ?thesis using Some p nx by (simp add: popBestNode_uncapped)
    qed
  qed
qed

text \<open>
  Claim C6, as the code has it. At the start of every outer iteration the limit is
  set to the value of lines 57 to 58 and the plunge starts in that state. While the
  counters are below \<open>2^53\<close> and the product fits a 32-bit \<open>int\<close>, that value is 10
  times the integer part of the average of LP iterations per node (over at least one
  node), which is at most ten times the average and more than that minus 10. The
  limit is removed before the loop over the queue, which the run loop enters after
  each plunge that leaves the domain feasible, so that every node popped in that loop
  is evaluated without a limit, as long as no collaborator sets one in between. The
  first node, popped before the loop, is installed without the limit being removed:
  the run loop starts from that state, sets the limit, and the first call made for
  this node is the \<open>dive\<close> of the first plunge, under that limit.
\<close>

theorem iteration_limit_policy:
  "(exact_range (lp_num_iterations s) (num_nodes s) \<longrightarrow>
      set_dive_limit c s = s\<lparr>lp_iteration_limit :=
         Some (10 * \<lfloor>real (unat (lp_num_iterations s)) / real (max 1 (unat (num_nodes s)))\<rfloor>)\<rparr>
      \<and> 10 * (real (unat (lp_num_iterations s)) / real (max 1 (unat (num_nodes s)))) - 10
           < real_of_int (dive_iteration_limit c s)
      \<and> real_of_int (dive_iteration_limit c s)
           \<le> 10 * (real (unat (lp_num_iterations s)) / real (max 1 (unat (num_nodes s)))))
   \<and> set_dive_limit c s = s\<lparr>lp_iteration_limit := Some (dive_iteration_limit c s)\<rparr>
   \<and> start_plunge k c s = plunge k c (num_nodes s) (set_dive_limit c s)
   \<and> plunge (Suc k) c st s =
        (if plunge_stops c st (plunge_round c s) then Some (snd (plunge_round c s))
         else plunge k c st (maybe_display c (snd (plunge_round c s))))
   \<and> plunge_round c s =
        backtrack c (flushStatistics c ((dive c s)\<lparr>num_leaves := num_leaves (dive c s) + 1\<rparr>))
   \<and> lp_iteration_limit (pre_install c s) = None
   \<and> (hasNode s \<and> dive_phase k c s = Some s6 \<and> \<not> domain_infeasible s6 \<longrightarrow>
        run_loop (Suc k) c basis s =
          (case install_loop k c basis (pre_install c s6) of
             None \<Rightarrow> None
           | Some (s9, basis') \<Rightarrow> run_loop k c basis' s9))
   \<and> ((\<forall>t. lp_iteration_limit (recoverBasis c t) = lp_iteration_limit t)
        \<and> (\<forall>t. lp_iteration_limit (evaluateNode c t) = lp_iteration_limit t)
        \<and> (\<forall>t. lp_iteration_limit (snd (backtrack c t)) = lp_iteration_limit t)
        \<and> (\<forall>t. lp_iteration_limit (flushStatistics c t) = lp_iteration_limit t)
        \<and> lp_iteration_limit s = None \<longrightarrow>
        install_loop k (uncapped c) basis s = install_loop k c basis s)
   \<and> (nodequeue (root_phase c s0) \<noteq> [] \<longrightarrow>
        (\<exists>s1. install_first (root_phase c s0) = Some s1 \<and> hasNode s1
           \<and> lp_iteration_limit s1 = lp_iteration_limit (root_phase c s0)
           \<and> run (Suc k) c s0 =
               (case run_loop (Suc k) c None s1 of
                  None \<Rightarrow> None
                | Some s7 \<Rightarrow> Some (printDisplayLine c (timer_stop c s7)))
           \<and> run_loop (Suc k) c None s1 =
               (case start_plunge k c s1 of
                  None \<Rightarrow> None
                | Some s2 \<Rightarrow>
                    let t = propagate c (maybe_display c (collect_open_nodes s2))
                    in if domain_infeasible t then Some (close_tree t)
                       else (case install_loop k c None (pre_install c t) of
                               None \<Rightarrow> None
                             | Some (s9, basis') \<Rightarrow> run_loop k c basis' s9))))"
proof -
  define a where "a = real (unat (lp_num_iterations s)) / real (max 1 (unat (num_nodes s)))"
  have 1: "exact_range (lp_num_iterations s) (num_nodes s) \<longrightarrow>
      set_dive_limit c s = s\<lparr>lp_iteration_limit := Some (10 * \<lfloor>a\<rfloor>)\<rparr>
      \<and> 10 * a - 10 < real_of_int (dive_iteration_limit c s)
      \<and> real_of_int (dive_iteration_limit c s) \<le> 10 * a"
  proof
    assume "exact_range (lp_num_iterations s) (num_nodes s)"
    then have d: "dive_iteration_limit c s = 10 * \<lfloor>a\<rfloor>"
      unfolding a_def by (rule dive_iteration_limit_floor)
    have x: "set_dive_limit c s = s\<lparr>lp_iteration_limit := Some (10 * \<lfloor>a\<rfloor>)\<rparr>"
      by (simp only: set_dive_limit_def setIterationLimit_def d)
    have fl: "real_of_int \<lfloor>a\<rfloor> \<le> a" "a < real_of_int \<lfloor>a\<rfloor> + 1" by linarith+
    have r: "real_of_int (dive_iteration_limit c s) = 10 * real_of_int \<lfloor>a\<rfloor>"
      by (simp only: d of_int_mult of_int_numeral)
    have y: "10 * a - 10 < real_of_int (dive_iteration_limit c s)"
      using fl(2) r by linarith
    have z: "real_of_int (dive_iteration_limit c s) \<le> 10 * a"
      using fl(1) r by linarith
    show "set_dive_limit c s = s\<lparr>lp_iteration_limit := Some (10 * \<lfloor>a\<rfloor>)\<rparr>
      \<and> 10 * a - 10 < real_of_int (dive_iteration_limit c s)
      \<and> real_of_int (dive_iteration_limit c s) \<le> 10 * a"
      using x y z by blast
  qed
  have 2: "set_dive_limit c s = s\<lparr>lp_iteration_limit := Some (dive_iteration_limit c s)\<rparr>"
    by (simp only: set_dive_limit_def setIterationLimit_def)
  have 3: "start_plunge k c s = plunge k c (num_nodes s) (set_dive_limit c s)"
    by (simp add: start_plunge_def Let_def set_dive_limit_def setIterationLimit_def)
  have 4: "plunge (Suc k) c st s =
        (if plunge_stops c st (plunge_round c s) then Some (snd (plunge_round c s))
         else plunge k c st (maybe_display c (snd (plunge_round c s))))"
    by (rule plunge_Suc)
  have 5: "plunge_round c s =
        backtrack c (flushStatistics c ((dive c s)\<lparr>num_leaves := num_leaves (dive c s) + 1\<rparr>))"
    by (simp add: plunge_round_def Let_def)
  have 6: "lp_iteration_limit (pre_install c s) = None"
    by (simp add: pre_install_def setIterationLimit_def)
  have 7: "hasNode s \<and> dive_phase k c s = Some s6 \<and> \<not> domain_infeasible s6 \<longrightarrow>
        run_loop (Suc k) c basis s =
          (case install_loop k c basis (pre_install c s6) of
             None \<Rightarrow> None
           | Some (s9, basis') \<Rightarrow> run_loop k c basis' s9)"
    using run_loop_continue [of s k c s6 basis] by blast
  have 8: "(\<forall>t. lp_iteration_limit (recoverBasis c t) = lp_iteration_limit t)
        \<and> (\<forall>t. lp_iteration_limit (evaluateNode c t) = lp_iteration_limit t)
        \<and> (\<forall>t. lp_iteration_limit (snd (backtrack c t)) = lp_iteration_limit t)
        \<and> (\<forall>t. lp_iteration_limit (flushStatistics c t) = lp_iteration_limit t)
        \<and> lp_iteration_limit s = None \<longrightarrow>
        install_loop k (uncapped c) basis s = install_loop k c basis s"
    using install_loop_uncapped [of c s k basis] by blast
  have 9: "nodequeue (root_phase c s0) \<noteq> [] \<longrightarrow>
        (\<exists>s1. install_first (root_phase c s0) = Some s1 \<and> hasNode s1
           \<and> lp_iteration_limit s1 = lp_iteration_limit (root_phase c s0)
           \<and> run (Suc k) c s0 =
               (case run_loop (Suc k) c None s1 of
                  None \<Rightarrow> None
                | Some s7 \<Rightarrow> Some (printDisplayLine c (timer_stop c s7)))
           \<and> run_loop (Suc k) c None s1 =
               (case start_plunge k c s1 of
                  None \<Rightarrow> None
                | Some s2 \<Rightarrow>
                    let t = propagate c (maybe_display c (collect_open_nodes s2))
                    in if domain_infeasible t then Some (close_tree t)
                       else (case install_loop k c None (pre_install c t) of
                               None \<Rightarrow> None
                             | Some (s9, basis') \<Rightarrow> run_loop k c basis' s9)))"
  proof
    assume "nodequeue (root_phase c s0) \<noteq> []"
    from run_tree_search [OF this, of "Suc k"]
    obtain n s1 where i: "install_first (root_phase c s0) = Some s1" "search_nodes s1 = [n]"
        "lp_iteration_limit s1 = lp_iteration_limit (root_phase c s0)"
        "run (Suc k) c s0 =
               (case run_loop (Suc k) c None s1 of
                  None \<Rightarrow> None
                | Some s7 \<Rightarrow> Some (printDisplayLine c (timer_stop c s7)))"
      by blast
    have h: "hasNode s1" using i(2) by (simp add: hasNode_def)
    have "run_loop (Suc k) c None s1 =
               (case start_plunge k c s1 of
                  None \<Rightarrow> None
                | Some s2 \<Rightarrow>
                    let t = propagate c (maybe_display c (collect_open_nodes s2))
                    in if domain_infeasible t then Some (close_tree t)
                       else (case install_loop k c None (pre_install c t) of
                               None \<Rightarrow> None
                             | Some (s9, basis') \<Rightarrow> run_loop k c basis' s9))"
      using h by (simp add: dive_phase_def Let_def split: option.splits)
    then show "\<exists>s1. install_first (root_phase c s0) = Some s1 \<and> hasNode s1
           \<and> lp_iteration_limit s1 = lp_iteration_limit (root_phase c s0)
           \<and> run (Suc k) c s0 =
               (case run_loop (Suc k) c None s1 of
                  None \<Rightarrow> None
                | Some s7 \<Rightarrow> Some (printDisplayLine c (timer_stop c s7)))
           \<and> run_loop (Suc k) c None s1 =
               (case start_plunge k c s1 of
                  None \<Rightarrow> None
                | Some s2 \<Rightarrow>
                    let t = propagate c (maybe_display c (collect_open_nodes s2))
                    in if domain_infeasible t then Some (close_tree t)
                       else (case install_loop k c None (pre_install c t) of
                               None \<Rightarrow> None
                             | Some (s9, basis') \<Rightarrow> run_loop k c basis' s9))"
      using i h by blast
  qed
  show ?thesis using 1 2 3 4 5 6 7 8 9 unfolding a_def by (intro conjI)
qed

text \<open>
  Fifteen iterations over ten nodes are in the exact range and give the limit 10;
  the scripted collaborators keep the limit; the node installed before the loop
  keeps the limit 7 that the root left.
\<close>

theorem iteration_limit_policy_witness:
  "exact_range (lp_num_iterations (toy_state [] [node_r])) (num_nodes (toy_state [] [node_r]))
   \<and> lp_iteration_limit (set_dive_limit toy (toy_state [] [node_r])) = Some 10
   \<and> lp_iteration_limit (pre_install toy (toy_state [node_a] [])) = None
   \<and> install_loop 2 (uncapped toy) None (pre_install toy (toy_state [node_a] []))
       = install_loop 2 toy None (pre_install toy (toy_state [node_a] []))
   \<and> nodequeue (root_phase toy (toy_state [node_r] [])) \<noteq> []
   \<and> map_option lp_iteration_limit (install_first (root_phase toy (toy_state [node_r] []))) = Some (Some 7)"
proof -
  let ?s = "toy_state [] [node_r]"
  let ?t = "pre_install toy (toy_state [node_a] [])"
  let ?r = "toy_state [node_r] []"
  have x: "exact_range (lp_num_iterations ?s) (num_nodes ?s)" by code_simp
  then have "set_dive_limit toy ?s = ?s\<lparr>lp_iteration_limit :=
       Some (10 * \<lfloor>real (unat (lp_num_iterations ?s)) / real (max 1 (unat (num_nodes ?s)))\<rfloor>)\<rparr>"
    using iteration_limit_policy [of ?s toy 0 0 ?s None ?s] by blast
  then have "lp_iteration_limit (set_dive_limit toy ?s) =
       Some (10 * \<lfloor>real (unat (lp_num_iterations ?s)) / real (max 1 (unat (num_nodes ?s)))\<rfloor>)"
    by simp
  also have "\<dots> = Some 10" by (simp add: toy_state_def)
  finally have 1: "lp_iteration_limit (set_dive_limit toy ?s) = Some 10" .
  have 2: "lp_iteration_limit ?t = None"
    using iteration_limit_policy [of "toy_state [node_a] []" toy 0 0 ?s None ?s] by blast
  have k1: "\<forall>t. lp_iteration_limit (recoverBasis toy t) = lp_iteration_limit t"
    by (simp add: toy_def toy_recoverBasis_def)
  have k2: "\<forall>t. lp_iteration_limit (evaluateNode toy t) = lp_iteration_limit t"
    by (simp add: toy_def)
  have k3: "\<forall>t. lp_iteration_limit (snd (backtrack toy t)) = lp_iteration_limit t"
    by (simp add: toy_def toy_backtrack_def split: list.splits)
  have k4: "\<forall>t. lp_iteration_limit (flushStatistics toy t) = lp_iteration_limit t"
    by (simp add: toy_def)
  have 3: "install_loop 2 (uncapped toy) None ?t = install_loop 2 toy None ?t"
    using iteration_limit_policy [of ?t toy 2 0 ?s None ?s] k1 k2 k3 k4 2 by blast
  have q: "nodequeue (root_phase toy ?r) \<noteq> []" by code_simp
  then obtain s1 where f: "install_first (root_phase toy ?r) = Some s1"
      "lp_iteration_limit s1 = lp_iteration_limit (root_phase toy ?r)"
    using iteration_limit_policy [of ?s toy 0 0 ?s None ?r] by blast
  have "lp_iteration_limit (root_phase toy ?r) = Some 7" by code_simp
  then have 4: "map_option lp_iteration_limit (install_first (root_phase toy ?r)) = Some (Some 7)"
    using f by simp
  show ?thesis using x 1 2 3 q 4 by blast
qed

text \<open>
  Claim C6 as stated fails: with fifteen iterations over ten nodes, well inside the
  exact range, the limit is 10, while ten times the average is 15; and the node
  popped before the loop (reference 0) is first solved by a dive under the limit 10.
\<close>

theorem iteration_limit_counterexample:
  "exact_range (lp_num_iterations (toy_state [] [node_r])) (num_nodes (toy_state [] [node_r]))
   \<and> lp_iteration_limit (set_dive_limit toy (toy_state [] [node_r])) = Some 10
   \<and> 10 * (real (unat (lp_num_iterations (toy_state [] [node_r])))
           / real (unat (max 1 (num_nodes (toy_state [] [node_r]))))) = 15
   \<and> map_option dives (run 9 toy (toy_state [node_r] [])) = Some [([0], Some 10)]"
proof -
  have 0: "exact_range (lp_num_iterations (toy_state [] [node_r])) (num_nodes (toy_state [] [node_r]))"
    by code_simp
  have 1: "lp_iteration_limit (set_dive_limit toy (toy_state [] [node_r])) = Some 10" by code_simp
  have 2: "10 * (real (unat (lp_num_iterations (toy_state [] [node_r])))
           / real (unat (max 1 (num_nodes (toy_state [] [node_r]))))) = 15"
    by (simp add: toy_state_def)
  have 3: "map_option dives (run 9 toy (toy_state [node_r] [])) = Some [([0], Some 10)]"
    by code_simp
  show ?thesis using 0 1 2 3 by blast
qed

end
